theory Spec2Isabelle
  imports Main "HOL-Library.Word"
begin

section \<open>Time\<close>

text \<open>
  A \<open>time.Time\<close> is modelled as an integer count of nanoseconds on the process clock and a
  \<open>time.Duration\<close> as an integer count of nanoseconds. The clock a method reads with
  \<open>time.Now()\<close> is a parameter \<open>now\<close> of the modelled method. The breaker's methods read the
  clock a second time within the same critical section, to stamp \<open>lastStateChange\<close>; no
  method reads that field, and the stamp is written with the same \<open>now\<close>.

  \<open>time.Since(t)\<close> is \<open>time.Now().Sub(t)\<close>; Go's \<open>Sub\<close> saturates at the largest and the
  smallest 64-bit duration instead of wrapping. \<open>Time.After\<close>, \<open>Time.Before\<close> and \<open>Time.Add\<close>
  are the plain comparisons and the plain sum.
\<close>

definition maxDuration :: int where
  "maxDuration = 2 ^ 63 - 1"

definition minDuration :: int where
  "minDuration = - (2 ^ 63)"

definition time_Since :: "int \<Rightarrow> int \<Rightarrow> int" where
  "time_Since now t = max minDuration (min maxDuration (now - t))"

definition time_After :: "int \<Rightarrow> int \<Rightarrow> bool" where
  "time_After t u = (u < t)"

definition time_Before :: "int \<Rightarrow> int \<Rightarrow> bool" where
  "time_Before t u = (t < u)"

definition time_Add :: "int \<Rightarrow> int \<Rightarrow> int" where
  "time_Add t d = t + d"

section \<open>CircuitBreaker\<close>

datatype CircuitState = StateClosed | StateOpen | StateHalfOpen

text \<open>
  The struct without its mutex: every method holds the lock for its whole body, so a method
  is one atomic step on the record. The counters are Go \<open>int\<close>s. \<open>failures\<close> is
  incremented only in the Closed state and \<open>successes\<close> only in the HalfOpen state, and the
  state is left as soon as the counter reaches \<open>threshold\<close> or \<open>halfOpenMax\<close>; a counter
  cannot wrap around before that, so both are modelled as unbounded integers.
\<close>

record CircuitBreaker =
  state :: CircuitState
  failures :: int
  successes :: int
  lastFailure :: int
  threshold :: int
  resetTimeout :: int
  halfOpenMax :: int
  lastStateChange :: int

definition NewCircuitBreaker :: "int \<Rightarrow> int \<Rightarrow> CircuitBreaker" where
  "NewCircuitBreaker thr rt =
     \<lparr> state = StateClosed, failures = 0, successes = 0, lastFailure = 0,
       threshold = thr, resetTimeout = rt, halfOpenMax = 3, lastStateChange = 0 \<rparr>"

text \<open>\<open>Allow\<close> returns its verdict together with the breaker it leaves behind.\<close>

definition Allow :: "int \<Rightarrow> CircuitBreaker \<Rightarrow> bool \<times> CircuitBreaker" where
  "Allow now cb =
     (case state cb of
        StateClosed \<Rightarrow> (True, cb)
      | StateOpen \<Rightarrow>
          if time_Since now (lastFailure cb) > resetTimeout cb
          then (True, cb\<lparr> state := StateHalfOpen, successes := 0, lastStateChange := now \<rparr>)
          else (False, cb)
      | StateHalfOpen \<Rightarrow> (successes cb < halfOpenMax cb, cb))"

definition RecordSuccess :: "int \<Rightarrow> CircuitBreaker \<Rightarrow> CircuitBreaker" where
  "RecordSuccess now cb =
     (case state cb of
        StateClosed \<Rightarrow> cb\<lparr> failures := 0 \<rparr>
      | StateHalfOpen \<Rightarrow>
          (let cb1 = cb\<lparr> successes := successes cb + 1 \<rparr>
           in if successes cb1 \<ge> halfOpenMax cb1
              then cb1\<lparr> state := StateClosed, failures := 0, lastStateChange := now \<rparr>
              else cb1)
      | StateOpen \<Rightarrow> cb)"

definition RecordFailure :: "int \<Rightarrow> CircuitBreaker \<Rightarrow> CircuitBreaker" where
  "RecordFailure now cb =
     (let cb0 = cb\<lparr> lastFailure := now \<rparr>
      in case state cb0 of
           StateClosed \<Rightarrow>
             (let cb1 = cb0\<lparr> failures := failures cb0 + 1 \<rparr>
              in if failures cb1 \<ge> threshold cb1
                 then cb1\<lparr> state := StateOpen, lastStateChange := now \<rparr>
                 else cb1)
         | StateHalfOpen \<Rightarrow> cb0\<lparr> state := StateOpen, lastStateChange := now \<rparr>
         | StateOpen \<Rightarrow> cb0)"

definition Reset :: "int \<Rightarrow> CircuitBreaker \<Rightarrow> CircuitBreaker" where
  "Reset now cb = cb\<lparr> state := StateClosed, failures := 0, successes := 0, lastStateChange := now \<rparr>"

definition IsOpen :: "CircuitBreaker \<Rightarrow> bool" where
  "IsOpen cb = (state cb = StateOpen)"

text \<open>Consecutive calls of one method, one clock reading per call.\<close>

fun record_failures :: "CircuitBreaker \<Rightarrow> int list \<Rightarrow> CircuitBreaker" where
  "record_failures cb [] = cb"
| "record_failures cb (t # ts) = record_failures (RecordFailure t cb) ts"

fun record_successes :: "CircuitBreaker \<Rightarrow> int list \<Rightarrow> CircuitBreaker" where
  "record_successes cb [] = cb"
| "record_successes cb (t # ts) = record_successes (RecordSuccess t cb) ts"

fun allow_calls :: "CircuitBreaker \<Rightarrow> int list \<Rightarrow> bool list \<times> CircuitBreaker" where
  "allow_calls cb [] = ([], cb)"
| "allow_calls cb (t # ts) =
     (let (r, cb1) = Allow t cb; (rs, cb2) = allow_calls cb1 ts in (r # rs, cb2))"

section \<open>FallbackCache\<close>

type_synonym bytes = "8 word list"

record fallbackEntry =
  data :: bytes
  expiresAt :: int

text \<open>
  The Go map \<open>entries\<close> is a finite map from keys to entries; \<open>len(fc.entries)\<close> is the
  number of its keys. \<open>maxSize\<close> is a Go \<open>int\<close> and may be zero or negative.
\<close>

record FallbackCache =
  entries :: "string \<rightharpoonup> fallbackEntry"
  maxSize :: int

definition len_entries :: "FallbackCache \<Rightarrow> int" where
  "len_entries fc = int (card (dom (entries fc)))"

text \<open>The constructor also starts the \<open>cleanup\<close> goroutine; its ticks are \<open>cleanup_tick\<close>.\<close>

definition NewFallbackCache :: "int \<Rightarrow> FallbackCache" where
  "NewFallbackCache n = \<lparr> entries = Map.empty, maxSize = n \<rparr>"

text \<open>
  \<open>Get\<close> takes the read lock and assigns to no field; it returns what it found together with
  the store it leaves behind.
\<close>

definition FallbackCache_Get ::
  "FallbackCache \<Rightarrow> int \<Rightarrow> string \<Rightarrow> bytes option \<times> FallbackCache" where
  "FallbackCache_Get fc now key =
     (case entries fc key of
        None \<Rightarrow> (None, fc)
      | Some entry \<Rightarrow>
          if time_After now (expiresAt entry) then (None, fc) else (Some (data entry), fc))"

text \<open>
  Go leaves the order in which \<open>range\<close> visits a map unspecified and varies it between
  runs. The keys in the order one \<open>range\<close> loop visits them are the parameter \<open>order\<close>;
  \<open>range_order\<close> says that the loop visits every key of the map exactly once.
\<close>

definition range_order :: "('k \<rightharpoonup> 'v) \<Rightarrow> 'k list \<Rightarrow> bool" where
  "range_order m order = (distinct order \<and> set order = dom m)"

text \<open>
  The loop of \<open>evictOldest\<close> on the pair \<open>(oldestKey, oldestTime)\<close>. The empty string is
  the loop's mark for "nothing chosen yet".
\<close>

fun evict_scan :: "(string \<rightharpoonup> fallbackEntry) \<Rightarrow> string list \<Rightarrow> string \<times> int \<Rightarrow> string \<times> int" where
  "evict_scan m [] acc = acc"
| "evict_scan m (key # rest) (oldestKey, oldestTime) =
     (case m key of
        None \<Rightarrow> evict_scan m rest (oldestKey, oldestTime)
      | Some entry \<Rightarrow>
          if oldestKey = [] \<or> time_Before (expiresAt entry) oldestTime
          then evict_scan m rest (key, expiresAt entry)
          else evict_scan m rest (oldestKey, oldestTime))"

text \<open>
  \<open>oldestTime\<close> starts as the zero \<open>time.Time\<close>; it is first compared after the first
  assignment, so its starting value is never read and is written \<open>0\<close> here.
\<close>

definition evictOldest :: "FallbackCache \<Rightarrow> string list \<Rightarrow> FallbackCache" where
  "evictOldest fc order =
     (let (oldestKey, oldestTime) = evict_scan (entries fc) order ([], 0)
      in if oldestKey \<noteq> [] then fc\<lparr> entries := (entries fc)(oldestKey := None) \<rparr> else fc)"

definition FallbackCache_Set ::
  "FallbackCache \<Rightarrow> int \<Rightarrow> string list \<Rightarrow> string \<Rightarrow> bytes \<Rightarrow> int \<Rightarrow> FallbackCache" where
  "FallbackCache_Set fc now order key d ttl =
     (let fc1 = (if len_entries fc \<ge> maxSize fc then evictOldest fc order else fc)
      in fc1\<lparr> entries := (entries fc1)(key \<mapsto> \<lparr> data = d, expiresAt = time_Add now ttl \<rparr>) \<rparr>)"

definition FallbackCache_Delete :: "FallbackCache \<Rightarrow> string \<Rightarrow> FallbackCache" where
  "FallbackCache_Delete fc key = fc\<lparr> entries := (entries fc)(key := None) \<rparr>"

text \<open>One tick of the \<open>cleanup\<close> loop: the sweep over the map at the clock reading \<open>now\<close>.\<close>

fun cleanup_scan :: "int \<Rightarrow> (string \<rightharpoonup> fallbackEntry) \<Rightarrow> string list \<Rightarrow> (string \<rightharpoonup> fallbackEntry)" where
  "cleanup_scan now m [] = m"
| "cleanup_scan now m (key # rest) =
     (case m key of
        None \<Rightarrow> cleanup_scan now m rest
      | Some entry \<Rightarrow>
          if time_After now (expiresAt entry)
          then cleanup_scan now (m(key := None)) rest
          else cleanup_scan now m rest)"

definition cleanup_tick :: "FallbackCache \<Rightarrow> int \<Rightarrow> string list \<Rightarrow> FallbackCache" where
  "cleanup_tick fc now order = fc\<lparr> entries := cleanup_scan now (entries fc) order \<rparr>"

text \<open>
  Sequences of store operations. Each operation carries the clock reading of its call and,
  where it ranges over the map, the order of that loop.
\<close>

datatype fb_op =
    OpGet string int
  | OpSet string bytes int int "string list"
  | OpDelete string
  | OpCleanup int "string list"

fun fb_step :: "FallbackCache \<Rightarrow> fb_op \<Rightarrow> FallbackCache" where
  "fb_step fc (OpGet key now) = snd (FallbackCache_Get fc now key)"
| "fb_step fc (OpSet key d ttl now order) = FallbackCache_Set fc now order key d ttl"
| "fb_step fc (OpDelete key) = FallbackCache_Delete fc key"
| "fb_step fc (OpCleanup now order) = cleanup_tick fc now order"

fun fb_run :: "FallbackCache \<Rightarrow> fb_op list \<Rightarrow> FallbackCache" where
  "fb_run fc [] = fc"
| "fb_run fc (op # ops) = fb_run (fb_step fc op) ops"

text \<open>
  An operation is admissible in a store when its loop order is one of that store's map and,
  for a \<open>Set\<close>, the key is not the empty string.
\<close>

fun fb_op_ok :: "FallbackCache \<Rightarrow> fb_op \<Rightarrow> bool" where
  "fb_op_ok fc (OpGet key now) = True"
| "fb_op_ok fc (OpSet key d ttl now order) = (key \<noteq> [] \<and> range_order (entries fc) order)"
| "fb_op_ok fc (OpDelete key) = True"
| "fb_op_ok fc (OpCleanup now order) = range_order (entries fc) order"

fun fb_ops_ok :: "FallbackCache \<Rightarrow> fb_op list \<Rightarrow> bool" where
  "fb_ops_ok fc [] = True"
| "fb_ops_ok fc (op # ops) = (fb_op_ok fc op \<and> fb_ops_ok (fb_step fc op) ops)"

section \<open>Cache\<close>

text \<open>Durations in nanoseconds: \<open>168 * time.Hour\<close> and \<open>30 * time.Second\<close>.\<close>

definition defaultExpiration :: int where
  "defaultExpiration = 168 * 3600000000000"

definition fallbackMaxSize :: int where
  "fallbackMaxSize = 10000"

definition cbThreshold :: int where
  "cbThreshold = 5"

definition cbResetTimeout :: int where
  "cbResetTimeout = 30 * 1000000000"

text \<open>
  The Redis client is outside the repository. A call to it is recorded as a command, and
  what it answers is a parameter of the method that makes the call: for \<open>Get\<close> either the
  bytes or an error, which is \<open>redis.Nil\<close> (key absent) or some other failure; for \<open>Set\<close> and
  \<open>Del\<close> an optional error.
\<close>

datatype redis_error = redis_Nil | redis_Failure string

datatype redis_cmd = Cmd_Get string | Cmd_Set string bytes int | Cmd_Del string

text \<open>
  The errors \<open>Cache\<close> returns: its own "circuit breaker open and key not in fallback", and
  the client's error (passed on as it is by \<open>Get\<close>, annotated by \<open>errutil.With\<close> in \<open>Set\<close>
  and \<open>Delete\<close>).
\<close>

datatype cache_error = ErrBreakerOpenNoFallback | ErrRemote redis_error

record Cache =
  cb :: CircuitBreaker
  fallback :: FallbackCache

definition NewCache :: Cache where
  "NewCache = \<lparr> cb = NewCircuitBreaker cbThreshold cbResetTimeout,
                fallback = NewFallbackCache fallbackMaxSize \<rparr>"

text \<open>
  What a \<open>Cache\<close> method reads from outside during one call: the clock inside the
  fallback store's method, inside \<open>Allow\<close> and inside \<open>RecordSuccess\<close>/\<open>RecordFailure\<close>, and
  the order of the eviction loop should the fallback store run it.
\<close>

record env =
  nowFallback :: int
  nowAllow :: int
  nowRecord :: int
  rangeOrder :: "string list"

text \<open>
  Each method returns its result (\<open>Inl\<close> an error), the cache it leaves behind and the
  commands it sent to the client. The warning logged when the breaker has opened changes
  nothing and is left out.
\<close>

definition Cache_Get ::
  "Cache \<Rightarrow> env \<Rightarrow> redis_error + bytes \<Rightarrow> string
     \<Rightarrow> (cache_error + bytes) \<times> Cache \<times> redis_cmd list" where
  "Cache_Get c e reply key =
     (let (allowed, cb1) = Allow (nowAllow e) (cb c)
      in if \<not> allowed
         then (case fst (FallbackCache_Get (fallback c) (nowFallback e) key) of
                 Some d \<Rightarrow> (Inr d, c\<lparr> cb := cb1 \<rparr>, [])
               | None \<Rightarrow> (Inl ErrBreakerOpenNoFallback, c\<lparr> cb := cb1 \<rparr>, []))
         else (case reply of
                 Inl err \<Rightarrow>
                   (let cb2 = (if err \<noteq> redis_Nil then RecordFailure (nowRecord e) cb1 else cb1)
                    in case fst (FallbackCache_Get (fallback c) (nowFallback e) key) of
                         Some d \<Rightarrow> (Inr d, c\<lparr> cb := cb2 \<rparr>, [Cmd_Get key])
                       | None \<Rightarrow> (Inl (ErrRemote err), c\<lparr> cb := cb2 \<rparr>, [Cmd_Get key]))
               | Inr d \<Rightarrow>
                   (Inr d,
                    c\<lparr> cb := RecordSuccess (nowRecord e) cb1,
                       fallback := FallbackCache_Set (fallback c) (nowFallback e) (rangeOrder e)
                                     key d defaultExpiration \<rparr>,
                    [Cmd_Get key])))"

definition Cache_Set ::
  "Cache \<Rightarrow> env \<Rightarrow> redis_error option \<Rightarrow> string \<Rightarrow> bytes \<Rightarrow> int
     \<Rightarrow> cache_error option \<times> Cache \<times> redis_cmd list" where
  "Cache_Set c e reply key d expiration0 =
     (let expiration = (if expiration0 = 0 then defaultExpiration else expiration0);
          fb1 = FallbackCache_Set (fallback c) (nowFallback e) (rangeOrder e) key d expiration;
          (allowed, cb1) = Allow (nowAllow e) (cb c)
      in if \<not> allowed
         then (None, \<lparr> cb = cb1, fallback = fb1 \<rparr>, [])
         else (case reply of
                 Some err \<Rightarrow>
                   (Some (ErrRemote err),
                    \<lparr> cb = RecordFailure (nowRecord e) cb1, fallback = fb1 \<rparr>,
                    [Cmd_Set key d expiration])
               | None \<Rightarrow>
                   (None,
                    \<lparr> cb = RecordSuccess (nowRecord e) cb1, fallback = fb1 \<rparr>,
                    [Cmd_Set key d expiration])))"

definition Cache_Delete ::
  "Cache \<Rightarrow> env \<Rightarrow> redis_error option \<Rightarrow> string
     \<Rightarrow> cache_error option \<times> Cache \<times> redis_cmd list" where
  "Cache_Delete c e reply key =
     (let fb1 = FallbackCache_Delete (fallback c) key;
          (allowed, cb1) = Allow (nowAllow e) (cb c)
      in if \<not> allowed
         then (None, \<lparr> cb = cb1, fallback = fb1 \<rparr>, [])
         else (case reply of
                 Some err \<Rightarrow>
                   (Some (ErrRemote err),
                    \<lparr> cb = RecordFailure (nowRecord e) cb1, fallback = fb1 \<rparr>,
                    [Cmd_Del key])
               | None \<Rightarrow>
                   (None,
                    \<lparr> cb = RecordSuccess (nowRecord e) cb1, fallback = fb1 \<rparr>,
                    [Cmd_Del key])))"

section \<open>Bot: guild contexts, enqueue and monitor\<close>

text \<open>
  A Go channel as far as these methods use it: the buffered values in order, the capacity
  given to \<open>make\<close> (\<open>0\<close> for \<open>make(chan T)\<close>), and the number of goroutines parked in a
  receive. \<open>len(ch)\<close> is the length of the buffer and \<open>cap(ch)\<close> the capacity.

  A send can proceed when a receiver is parked (the value is handed to it) or the buffer
  has room; a receive that must not block takes the head of the buffer when there is one.
  No sender ever parks on these channels: \<open>enqueue\<close> sends inside a \<open>select\<close> with a
  \<open>default\<close> branch.
\<close>

record 'a chan =
  buf :: "'a list"
  cap :: nat
  recvq :: nat

definition make_chan :: "nat \<Rightarrow> 'a chan" where
  "make_chan n = \<lparr> buf = [], cap = n, recvq = 0 \<rparr>"

definition chan_can_send :: "'a chan \<Rightarrow> bool" where
  "chan_can_send ch = (0 < recvq ch \<or> length (buf ch) < cap ch)"

definition chan_send :: "'a chan \<Rightarrow> 'a \<Rightarrow> 'a chan" where
  "chan_send ch x =
     (if 0 < recvq ch then ch\<lparr> recvq := recvq ch - 1 \<rparr> else ch\<lparr> buf := buf ch @ [x] \<rparr>)"

definition chan_try_recv :: "'a chan \<Rightarrow> ('a \<times> 'a chan) option" where
  "chan_try_recv ch = (case buf ch of [] \<Rightarrow> None | x # xs \<Rightarrow> Some (x, ch\<lparr> buf := xs \<rparr>))"

text \<open>
  A receiver parks only on an empty buffer, so in every channel the Go runtime produces
  either no receiver is parked or the buffer is empty.
\<close>

definition chan_wf :: "'a chan \<Rightarrow> bool" where
  "chan_wf ch = (recvq ch = 0 \<or> buf ch = [])"

datatype EventType =
  EventTypeGuildUpdate | EventTypeInteraction | EventTypeMsgDeletion | EventTypeVoiceUpdate

text \<open>The four payload pointers refer to gateway structs; \<open>None\<close> is \<open>nil\<close>.\<close>

record GuildEvent =
  Type :: EventType
  GuildUpdate :: "nat option"
  Interaction :: "nat option"
  MsgDeletion :: "nat option"
  VoiceUpdate :: "nat option"

text \<open>
  \<open>Context\<close> and \<open>Cancel\<close> of a guild context are one flag, set by \<open>Cancel()\<close>. The context
  is a child of the bot's context, so its \<open>Done()\<close> channel is closed when either was
  cancelled.
\<close>

record GuildContext =
  Cancelled :: bool
  Events :: "GuildEvent chan"
  Relay :: "string chan"

record Bot =
  botCancelled :: bool
  contexts :: "string \<rightharpoonup> GuildContext"

text \<open>
  Of \<open>NewBot\<close> only the empty registry and the live context matter here; the session, the
  database, the cache, the logger and the responder are collaborators.
\<close>

definition NewBot :: Bot where
  "NewBot = \<lparr> botCancelled = False, contexts = Map.empty \<rparr>"

definition context_Done :: "Bot \<Rightarrow> GuildContext \<Rightarrow> bool" where
  "context_Done b gc = (botCancelled b \<or> Cancelled gc)"

text \<open>
  \<open>ensure\<close> looks the guild up under the read lock and again under the write lock; run as
  one step the two lookups see the same map.
\<close>

definition ensure :: "Bot \<Rightarrow> string \<Rightarrow> GuildContext \<times> Bot" where
  "ensure b guildID =
     (case contexts b guildID of
        Some guildCtx \<Rightarrow> (guildCtx, b)
      | None \<Rightarrow>
          (let guildCtx = \<lparr> Cancelled = False, Events = make_chan 1000, Relay = make_chan 500 \<rparr>
           in (guildCtx, b\<lparr> contexts := (contexts b)(guildID \<mapsto> guildCtx) \<rparr>)))"

text \<open>
  \<open>register\<close> installs the new context before it talks to the database; \<open>dbOk\<close> says
  whether the database calls succeeded, and the second component whether the \<open>load\<close> and
  \<open>dispatch\<close> goroutines were started. Cancelling the replaced context acts on an object
  the map no longer holds.
\<close>

definition register :: "Bot \<Rightarrow> string \<Rightarrow> bool \<Rightarrow> Bot \<times> bool" where
  "register b gID dbOk =
     (let guildCtx = \<lparr> Cancelled = False, Events = make_chan 0, Relay = make_chan 0 \<rparr>
      in (b\<lparr> contexts := (contexts b)(gID \<mapsto> guildCtx) \<rparr>, dbOk))"

definition remove :: "Bot \<Rightarrow> string \<Rightarrow> Bot" where
  "remove b gID = b\<lparr> contexts := (contexts b)(gID := None) \<rparr>"

text \<open>
  The four ways \<open>enqueue\<close> ends, one per log line (the send itself logs nothing). When both
  the send and \<open>Done()\<close> are ready, Go's \<open>select\<close> picks one of them at random: \<open>pick\<close> is
  that choice (\<open>True\<close> for the send). The \<open>default\<close> branch runs when neither is ready.
\<close>

datatype outcome = Delivered | DroppedCancelled | DroppedFull | DroppedUnknown

definition enqueue :: "Bot \<Rightarrow> bool \<Rightarrow> string \<Rightarrow> GuildEvent \<Rightarrow> outcome \<times> Bot" where
  "enqueue b pick guildID event =
     (case contexts b guildID of
        None \<Rightarrow> (DroppedUnknown, b)
      | Some ctx \<Rightarrow>
          (let sent = (Delivered,
                       b\<lparr> contexts := (contexts b)(guildID \<mapsto>
                              ctx\<lparr> Events := chan_send (Events ctx) event \<rparr>) \<rparr>)
           in if chan_can_send (Events ctx)
              then (if context_Done b ctx
                    then (if pick then sent else (DroppedCancelled, b))
                    else sent)
              else (if context_Done b ctx then (DroppedCancelled, b) else (DroppedFull, b))))"

text \<open>
  The counting loop of \<open>monitor\<close>: \<open>for i := 0; i < 500; i++\<close> around a \<open>select\<close> that
  receives from \<open>Events\<close> or, in its \<open>default\<close> branch, sets \<open>i = 500\<close> and so ends the
  loop. The first argument is the number of iterations left.
\<close>

fun drain :: "nat \<Rightarrow> 'a chan \<Rightarrow> nat \<Rightarrow> nat \<times> 'a chan" where
  "drain 0 ch channelSize = (channelSize, ch)"
| "drain (Suc n) ch channelSize =
     (case chan_try_recv ch of
        None \<Rightarrow> (channelSize, ch)
      | Some (x, ch1) \<Rightarrow> drain n ch1 (channelSize + 1))"

text \<open>
  One tick of \<open>monitor\<close> on the context it was handed: the counting loop, then the reads of
  \<open>len\<close> and \<open>cap\<close>. The result is \<open>channelSize\<close>, \<open>currentLen\<close>, \<open>capacity\<close> and the context
  after the tick. The fill percentage (a \<open>float64\<close>) and the warnings computed from these
  numbers touch neither channel and are left out.
\<close>

definition monitor_tick :: "GuildContext \<Rightarrow> (nat \<times> nat \<times> nat) \<times> GuildContext" where
  "monitor_tick ctx =
     (let (channelSize, ch) = drain 500 (Events ctx) 0;
          currentLen = length (buf ch);
          capacity = cap ch
      in ((channelSize, currentLen, capacity), ctx\<lparr> Events := ch \<rparr>))"

section \<open>The circuit breaker's transitions\<close>

lemma record_failures_append:
  "record_failures br (xs @ ys) = record_failures (record_failures br xs) ys"
  by (induction xs arbitrary: br) simp_all

lemma record_failures_below:
  "state br = StateClosed \<Longrightarrow> failures br + int (length ts) < threshold br \<Longrightarrow>
   record_failures br ts =
     (if ts = [] then br
      else br\<lparr> lastFailure := last ts, failures := failures br + int (length ts) \<rparr>)"
proof (induction ts arbitrary: br)
  case Nil
  then show ?case by simp
next
  case (Cons t ts)
  let ?br1 = "RecordFailure t br"
  have step: "?br1 = br\<lparr> lastFailure := t, failures := failures br + 1 \<rparr>"
    using Cons.prems by (simp add: RecordFailure_def Let_def)
  have "state ?br1 = StateClosed" "failures ?br1 + int (length ts) < threshold ?br1"
    using Cons.prems by (simp_all add: step)
  from Cons.IH [OF this] show ?case
    by (simp add: step)
qed

lemma allow_calls_open_false:
  "state br = StateOpen \<Longrightarrow> \<forall>t \<in> set ns. time_Since t (lastFailure br) \<le> resetTimeout br \<Longrightarrow>
   allow_calls br ns = (replicate (length ns) False, br)"
  by (induction ns) (simp_all add: Allow_def)

text \<open>
  Claim C2. Starting from a Closed breaker with no failures counted, a run of
  \<open>RecordFailure\<close> calls as long as the threshold (at least one call), with no
  \<open>RecordSuccess\<close> in between, leaves the breaker Closed after every call but the last and
  Open after the last one: it opens once, on the threshold-th call. From then on every
  \<open>Allow\<close> call made while the time since the last failure does not exceed the reset
  timeout returns false and leaves the breaker as it is.
\<close>

theorem breaker_opens_at_threshold:
  assumes closed: "state br = StateClosed"
    and zero: "failures br = 0"
    and len: "int (length ts) = threshold br"
    and pos: "1 \<le> threshold br"
  shows "(\<forall>k < length ts. state (record_failures br (take k ts)) = StateClosed)
       \<and> state (record_failures br ts) = StateOpen
       \<and> lastFailure (record_failures br ts) = last ts
       \<and> (\<forall>ns. (\<forall>t \<in> set ns. time_Since t (last ts) \<le> resetTimeout br) \<longrightarrow>
             allow_calls (record_failures br ts) ns
               = (replicate (length ns) False, record_failures br ts))"
proof -
  have before: "state (record_failures br (take k ts)) = StateClosed
              \<and> failures (record_failures br (take k ts)) = int k
              \<and> threshold (record_failures br (take k ts)) = threshold br
              \<and> resetTimeout (record_failures br (take k ts)) = resetTimeout br"
    if "k < length ts" for k
  proof -
    have "failures br + int (length (take k ts)) < threshold br"
      using that zero len by simp
    from record_failures_below [OF closed this] show ?thesis
      using closed zero that by auto
  qed
  from pos len have ne: "ts \<noteq> []" by auto
  then have split: "ts = take (length ts - 1) ts @ [last ts]"
    by (metis append_butlast_last_id butlast_conv_take)
  let ?p = "record_failures br (take (length ts - 1) ts)"
  have lt: "length ts - 1 < length ts" using ne by simp
  note b = before [OF lt]
  have fin: "record_failures br ts = RecordFailure (last ts) ?p"
    by (subst split) (simp only: record_failures_append record_failures.simps)
  have fl: "failures ?p + 1 = threshold br"
    using b len ne by (simp add: of_nat_diff Suc_leI)
  have opened: "state (RecordFailure (last ts) ?p) = StateOpen"
    and lf: "lastFailure (RecordFailure (last ts) ?p) = last ts"
    and rt: "resetTimeout (RecordFailure (last ts) ?p) = resetTimeout br"
    using b fl by (simp_all add: RecordFailure_def Let_def)
  have allows: "allow_calls (record_failures br ts) ns
               = (replicate (length ns) False, record_failures br ts)"
    if "\<forall>t \<in> set ns. time_Since t (last ts) \<le> resetTimeout br" for ns
    using allow_calls_open_false [of "record_failures br ts" ns] that opened lf rt
    by (simp add: fin)
  show ?thesis
    using before opened lf allows by (simp add: fin)
qed


lemma record_successes_append:
  "record_successes br (xs @ ys) = record_successes (record_successes br xs) ys"
  by (induction xs arbitrary: br) simp_all

lemma record_successes_below:
  "state br = StateHalfOpen \<Longrightarrow> successes br + int (length ts) < halfOpenMax br \<Longrightarrow>
   record_successes br ts = br\<lparr> successes := successes br + int (length ts) \<rparr>"
proof (induction ts arbitrary: br)
  case Nil
  then show ?case by simp
next
  case (Cons t ts)
  let ?br1 = "RecordSuccess t br"
  have step: "?br1 = br\<lparr> successes := successes br + 1 \<rparr>"
    using Cons.prems by (simp add: RecordSuccess_def Let_def)
  have "state ?br1 = StateHalfOpen" "successes ?br1 + int (length ts) < halfOpenMax ?br1"
    using Cons.prems by (simp_all add: step)
  from Cons.IH [OF this] show ?case
    by (simp add: step add.assoc)
qed

lemma record_successes_close:
  assumes half: "state h = StateHalfOpen"
    and zero: "successes h = 0"
    and len: "int (length ts) = halfOpenMax h"
    and pos: "1 \<le> halfOpenMax h"
  shows "(\<forall>k < length ts. state (record_successes h (take k ts)) = StateHalfOpen)
       \<and> state (record_successes h ts) = StateClosed
       \<and> failures (record_successes h ts) = 0"
proof -
  have before: "record_successes h (take k ts) = h\<lparr> successes := int k \<rparr>"
    if "k < length ts" for k
  proof -
    have "successes h + int (length (take k ts)) < halfOpenMax h"
      using that zero len by simp
    from record_successes_below [OF half this] show ?thesis
      using zero that by simp
  qed
  from pos len have ne: "ts \<noteq> []" by auto
  then have split: "ts = take (length ts - 1) ts @ [last ts]"
    by (metis append_butlast_last_id butlast_conv_take)
  have lt: "length ts - 1 < length ts" using ne by simp
  note b = before [OF lt]
  have fin: "record_successes h ts
             = RecordSuccess (last ts) (h\<lparr> successes := int (length ts - 1) \<rparr>)"
    by (subst split) (simp only: record_successes_append record_successes.simps b)
  have cnt: "int (length ts - 1) + 1 = halfOpenMax h"
    using len ne by (simp add: of_nat_diff Suc_leI)
  have closed: "state (record_successes h ts) = StateClosed"
    and cleared: "failures (record_successes h ts) = 0"
    using half cnt by (simp_all add: fin RecordSuccess_def Let_def)
  show ?thesis
    using before half closed cleared by simp
qed

text \<open>
  Claim C3. For an Open breaker, the first \<open>Allow\<close> after the reset timeout has elapsed
  since the last failure returns true and moves the breaker to HalfOpen with the success
  count at zero. From there a run of \<open>halfOpenMax\<close> consecutive \<open>RecordSuccess\<close> calls
  keeps it HalfOpen after every call but the last and closes it, with the failure count
  cleared, on the last. In any HalfOpen breaker one \<open>RecordFailure\<close> reopens it, and
  \<open>Allow\<close> answers whether the success count is below \<open>halfOpenMax\<close>, changing nothing.
\<close>

theorem half_open_probation:
  assumes opn: "state br = StateOpen"
    and elapsed: "resetTimeout br < time_Since now (lastFailure br)"
    and budget: "1 \<le> halfOpenMax br"
    and half: "state h = StateHalfOpen"
  shows "fst (Allow now br)
       \<and> state (snd (Allow now br)) = StateHalfOpen
       \<and> successes (snd (Allow now br)) = 0
       \<and> (\<forall>ts. int (length ts) = halfOpenMax br \<longrightarrow>
             (\<forall>k < length ts.
                 state (record_successes (snd (Allow now br)) (take k ts)) = StateHalfOpen)
             \<and> state (record_successes (snd (Allow now br)) ts) = StateClosed
             \<and> failures (record_successes (snd (Allow now br)) ts) = 0)
       \<and> state (RecordFailure t h) = StateOpen
       \<and> Allow t h = (successes h < halfOpenMax h, h)"
proof -
  let ?p = "snd (Allow now br)"
  have probe: "Allow now br
               = (True, br\<lparr> state := StateHalfOpen, successes := 0, lastStateChange := now \<rparr>)"
    using opn elapsed by (simp add: Allow_def)
  have p_half: "state ?p = StateHalfOpen" and p_zero: "successes ?p = 0"
    and p_max: "halfOpenMax ?p = halfOpenMax br"
    by (simp_all add: probe)
  have run: "(\<forall>k < length ts. state (record_successes ?p (take k ts)) = StateHalfOpen)
           \<and> state (record_successes ?p ts) = StateClosed
           \<and> failures (record_successes ?p ts) = 0"
    if "int (length ts) = halfOpenMax br" for ts
    using record_successes_close [OF p_half p_zero, of ts] that budget p_max by simp
  have reopen: "state (RecordFailure t h) = StateOpen"
    using half by (simp add: RecordFailure_def Let_def)
  have gate: "Allow t h = (successes h < halfOpenMax h, h)"
    using half by (simp add: Allow_def)
  show ?thesis
    using probe run reopen gate by simp
qed


theorem breaker_opens_at_threshold_witness:
  "state (NewCircuitBreaker 2 30) = StateClosed
   \<and> failures (NewCircuitBreaker 2 30) = 0
   \<and> int (length [10, 20 :: int]) = threshold (NewCircuitBreaker 2 30)
   \<and> 1 \<le> threshold (NewCircuitBreaker 2 30)
   \<and> state (record_failures (NewCircuitBreaker 2 30) (take 1 [10, 20])) = StateClosed
   \<and> state (record_failures (NewCircuitBreaker 2 30) [10, 20]) = StateOpen
   \<and> lastFailure (record_failures (NewCircuitBreaker 2 30) [10, 20]) = 20
   \<and> allow_calls (record_failures (NewCircuitBreaker 2 30) [10, 20]) [21, 50]
       = ([False, False], record_failures (NewCircuitBreaker 2 30) [10, 20])"
proof -
  have h1: "state (NewCircuitBreaker 2 30) = StateClosed"
    and h2: "failures (NewCircuitBreaker 2 30) = 0"
    and h3: "int (length [10, 20 :: int]) = threshold (NewCircuitBreaker 2 30)"
    and h4: "1 \<le> threshold (NewCircuitBreaker 2 30)"
    by (simp_all add: NewCircuitBreaker_def)
  have h5: "\<forall>t \<in> set [21, 50 :: int].
              time_Since t (last [10, 20]) \<le> resetTimeout (NewCircuitBreaker 2 30)"
    by (simp add: NewCircuitBreaker_def time_Since_def maxDuration_def minDuration_def)
  have k: "(1::nat) < length [10, 20 :: int]" by simp
  note main = breaker_opens_at_threshold [OF h1 h2 h3 h4]
  from main have a: "state (record_failures (NewCircuitBreaker 2 30) (take 1 [10, 20])) = StateClosed"
    using k by blast
  from main h5 have b: "allow_calls (record_failures (NewCircuitBreaker 2 30) [10, 20]) [21, 50]
       = (replicate (length [21, 50 :: int]) False, record_failures (NewCircuitBreaker 2 30) [10, 20])"
    by blast
  show ?thesis
    using h1 h2 h3 h4 main a b by simp
qed

theorem half_open_probation_witness:
  "state (record_failures (NewCircuitBreaker 1 30) [100]) = StateOpen
   \<and> resetTimeout (record_failures (NewCircuitBreaker 1 30) [100])
       < time_Since 131 (lastFailure (record_failures (NewCircuitBreaker 1 30) [100]))
   \<and> 1 \<le> halfOpenMax (record_failures (NewCircuitBreaker 1 30) [100])
   \<and> state (snd (Allow 131 (record_failures (NewCircuitBreaker 1 30) [100]))) = StateHalfOpen
   \<and> fst (Allow 131 (record_failures (NewCircuitBreaker 1 30) [100]))
   \<and> state (record_successes (snd (Allow 131 (record_failures (NewCircuitBreaker 1 30) [100])))
               (take 2 [140, 150, 160])) = StateHalfOpen
   \<and> state (record_successes (snd (Allow 131 (record_failures (NewCircuitBreaker 1 30) [100])))
               [140, 150, 160]) = StateClosed
   \<and> failures (record_successes (snd (Allow 131 (record_failures (NewCircuitBreaker 1 30) [100])))
               [140, 150, 160]) = 0
   \<and> state (RecordFailure 140 (snd (Allow 131 (record_failures (NewCircuitBreaker 1 30) [100]))))
       = StateOpen"
proof -
  let ?br = "record_failures (NewCircuitBreaker 1 30) [100]"
  have h1: "state ?br = StateOpen"
    and h3: "1 \<le> halfOpenMax ?br"
    by (simp_all add: NewCircuitBreaker_def RecordFailure_def Let_def)
  have h2: "resetTimeout ?br < time_Since 131 (lastFailure ?br)"
    by (simp add: NewCircuitBreaker_def RecordFailure_def Let_def time_Since_def
        maxDuration_def minDuration_def)
  have h4: "state (snd (Allow 131 ?br)) = StateHalfOpen"
    using h1 h2 by (simp add: Allow_def)
  have m: "halfOpenMax ?br = 3"
    by (simp add: NewCircuitBreaker_def RecordFailure_def Let_def)
  have l: "int (length [140, 150, 160 :: int]) = halfOpenMax ?br"
    using m by simp
  have k: "(2::nat) < length [140, 150, 160 :: int]" by simp
  note main = half_open_probation [OF h1 h2 h3 h4, of 140]
  from main l have run:
    "(\<forall>k < length [140, 150, 160 :: int].
        state (record_successes (snd (Allow 131 ?br)) (take k [140, 150, 160])) = StateHalfOpen)
     \<and> state (record_successes (snd (Allow 131 ?br)) [140, 150, 160]) = StateClosed
     \<and> failures (record_successes (snd (Allow 131 ?br)) [140, 150, 160]) = 0"
    by blast
  from run k have a:
    "state (record_successes (snd (Allow 131 ?br)) (take 2 [140, 150, 160])) = StateHalfOpen"
    by blast
  show ?thesis
    using h1 h2 h3 h4 main run a by blast
qed

section \<open>The fallback store: eviction, capacity and expiry\<close>

lemma evict_scan_chosen:
  "set order \<subseteq> dom m \<Longrightarrow> [] \<notin> set order \<Longrightarrow>
   order \<noteq> [] \<or> (k0 \<in> dom m \<and> k0 \<noteq> [] \<and> t0 = expiresAt (the (m k0))) \<Longrightarrow>
   k0 = [] \<or> (k0 \<in> dom m \<and> t0 = expiresAt (the (m k0))) \<Longrightarrow>
   evict_scan m order (k0, t0) = (k, t) \<Longrightarrow>
   k \<in> dom m \<and> k \<noteq> [] \<and> t = expiresAt (the (m k))
   \<and> k \<in> insert k0 (set order)
   \<and> (\<forall>k' \<in> set order. t \<le> expiresAt (the (m k')))
   \<and> (k0 \<noteq> [] \<longrightarrow> t \<le> t0)"
proof (induction order arbitrary: k0 t0)
  case Nil
  then show ?case by auto
next
  case (Cons key rest)
  from Cons.prems(1) obtain entry where e: "m key = Some entry" by auto
  from Cons.prems(2) have kne: "key \<noteq> []" by auto
  show ?case
  proof (cases "k0 = [] \<or> time_Before (expiresAt entry) t0")
    case True
    then have run: "evict_scan m rest (key, expiresAt entry) = (k, t)"
      using Cons.prems(5) e by simp
    have "k \<in> dom m \<and> k \<noteq> [] \<and> t = expiresAt (the (m k))
         \<and> k \<in> insert key (set rest)
         \<and> (\<forall>k' \<in> set rest. t \<le> expiresAt (the (m k')))
         \<and> (key \<noteq> [] \<longrightarrow> t \<le> expiresAt entry)"
      using Cons.prems(1,2) e kne by (intro Cons.IH [OF _ _ _ _ run]) auto
    then show ?thesis
      using True e kne Cons.prems(4) by (auto simp: time_Before_def)
  next
    case False
    then have run: "evict_scan m rest (k0, t0) = (k, t)"
      using Cons.prems(5) e by simp
    have "k \<in> dom m \<and> k \<noteq> [] \<and> t = expiresAt (the (m k))
         \<and> k \<in> insert k0 (set rest)
         \<and> (\<forall>k' \<in> set rest. t \<le> expiresAt (the (m k')))
         \<and> (k0 \<noteq> [] \<longrightarrow> t \<le> t0)"
      using Cons.prems(1,2,4) False by (intro Cons.IH [OF _ _ _ _ run]) auto
    then show ?thesis
      using False e by (auto simp: time_Before_def)
  qed
qed

lemma evictOldest_victim:
  assumes ord: "range_order (entries fc) order"
    and noempty: "[] \<notin> dom (entries fc)"
    and nonempty: "dom (entries fc) \<noteq> {}"
  shows "\<exists>victim \<in> dom (entries fc).
           (\<forall>k' \<in> dom (entries fc).
               expiresAt (the (entries fc victim)) \<le> expiresAt (the (entries fc k')))
           \<and> evictOldest fc order = fc\<lparr> entries := (entries fc)(victim := None) \<rparr>"
proof -
  obtain k t where run: "evict_scan (entries fc) order ([], 0) = (k, t)"
    by (cases "evict_scan (entries fc) order ([], 0)") auto
  have sub: "set order \<subseteq> dom (entries fc)" and eq: "set order = dom (entries fc)"
    using ord by (simp_all add: range_order_def)
  have ne: "[] \<notin> set order" using noempty eq by simp
  have nn: "order \<noteq> []" using nonempty eq by (metis set_empty)
  from evict_scan_chosen [OF sub ne _ _ run] nn
  have ch: "k \<in> dom (entries fc)" "k \<noteq> []" "t = expiresAt (the (entries fc k))"
    "\<forall>k' \<in> set order. t \<le> expiresAt (the (entries fc k'))"
    by auto
  have "evictOldest fc order = fc\<lparr> entries := (entries fc)(k := None) \<rparr>"
    using run ch(2) by (simp add: evictOldest_def)
  then show ?thesis
    using ch eq by blast
qed

lemma dom_cleanup_scan: "dom (cleanup_scan now m order) \<subseteq> dom m"
proof (induction order arbitrary: m)
  case Nil
  then show ?case by simp
next
  case (Cons key rest)
  have a: "dom (cleanup_scan now (m(key := None)) rest) \<subseteq> dom (m(key := None))"
    by (rule Cons.IH)
  have b: "dom (m(key := None)) \<subseteq> dom m"
    by (auto simp: dom_def)
  have c: "dom (cleanup_scan now (m(key := None)) rest) \<subseteq> dom m"
    using a b by (rule subset_trans)
  have d: "dom (cleanup_scan now m rest) \<subseteq> dom m"
    by (rule Cons.IH)
  show ?case
  proof (cases "m key")
    case None
    then show ?thesis using d by simp
  next
    case (Some entry)
    then show ?thesis using c d by simp
  qed
qed

lemma card_after_evict:
  assumes fin: "finite (dom m)" and v: "victim \<in> dom m"
  shows "int (card (dom (m(victim := None, key \<mapsto> e)))) \<le> int (card (dom m))"
proof -
  have "dom (m(victim := None, key \<mapsto> e)) = insert key (dom m - {victim})"
    by simp
  moreover have "card (insert key (dom m - {victim})) \<le> Suc (card (dom m - {victim}))"
    by (rule card_insert_le_m1) simp_all
  moreover have "Suc (card (dom m - {victim})) = card (dom m)"
    using fin v by (rule card_Suc_Diff1)
  ultimately show ?thesis by simp
qed

lemma Set_at_capacity:
  assumes fin: "finite (dom (entries fc))"
    and noempty: "[] \<notin> dom (entries fc)"
    and full: "maxSize fc \<le> len_entries fc"
    and pos: "1 \<le> len_entries fc"
    and ord: "range_order (entries fc) order"
  shows "\<exists>victim \<in> dom (entries fc).
           (\<forall>k' \<in> dom (entries fc).
               expiresAt (the (entries fc victim)) \<le> expiresAt (the (entries fc k')))
           \<and> evictOldest fc order = fc\<lparr> entries := (entries fc)(victim := None) \<rparr>
           \<and> len_entries (evictOldest fc order) = len_entries fc - 1
           \<and> FallbackCache_Set fc now order key d ttl
               = fc\<lparr> entries := (entries fc)(victim := None,
                                    key \<mapsto> \<lparr> data = d, expiresAt = time_Add now ttl \<rparr>) \<rparr>"
proof -
  have nonempty: "dom (entries fc) \<noteq> {}"
    using pos by (auto simp: len_entries_def)
  from evictOldest_victim [OF ord noempty nonempty]
  obtain victim where v: "victim \<in> dom (entries fc)"
    and least: "\<forall>k' \<in> dom (entries fc).
               expiresAt (the (entries fc victim)) \<le> expiresAt (the (entries fc k'))"
    and ev: "evictOldest fc order = fc\<lparr> entries := (entries fc)(victim := None) \<rparr>"
    by blast
  have "card (dom (entries fc) - {victim}) = card (dom (entries fc)) - 1"
    using fin v by simp
  moreover have "1 \<le> card (dom (entries fc))"
    using pos by (simp add: len_entries_def)
  ultimately have cnt: "len_entries (evictOldest fc order) = len_entries fc - 1"
    by (simp add: ev len_entries_def of_nat_diff)
  have st: "FallbackCache_Set fc now order key d ttl
            = fc\<lparr> entries := (entries fc)(victim := None,
                                 key \<mapsto> \<lparr> data = d, expiresAt = time_Add now ttl \<rparr>) \<rparr>"
    using full by (simp add: FallbackCache_Set_def ev)
  show ?thesis
    using v least ev cnt st by blast
qed

lemma fb_step_bounded:
  assumes fin: "finite (dom (entries fc))"
    and noempty: "[] \<notin> dom (entries fc)"
    and bound: "len_entries fc \<le> maxSize fc"
    and cap: "1 \<le> maxSize fc"
    and ok: "fb_op_ok fc op"
  shows "finite (dom (entries (fb_step fc op)))
       \<and> [] \<notin> dom (entries (fb_step fc op))
       \<and> len_entries (fb_step fc op) \<le> maxSize (fb_step fc op)
       \<and> maxSize (fb_step fc op) = maxSize fc"
proof (cases op)
  case (OpGet key now)
  then show ?thesis
    using fin noempty bound by (simp add: FallbackCache_Get_def split: option.splits)
next
  case (OpSet key d ttl now order)
  with ok have kne: "key \<noteq> []" and ord: "range_order (entries fc) order"
    by simp_all
  show ?thesis
  proof (cases "maxSize fc \<le> len_entries fc")
    case True
    then have pos: "1 \<le> len_entries fc" using cap by simp
    from Set_at_capacity [OF fin noempty True pos ord, of now key d ttl]
    obtain victim where v: "victim \<in> dom (entries fc)"
      and st: "FallbackCache_Set fc now order key d ttl
               = fc\<lparr> entries := (entries fc)(victim := None,
                                    key \<mapsto> \<lparr> data = d, expiresAt = time_Add now ttl \<rparr>) \<rparr>"
      by blast
    have "len_entries (FallbackCache_Set fc now order key d ttl) \<le> len_entries fc"
      using card_after_evict [OF fin v] by (simp add: st len_entries_def)
    then show ?thesis
      using OpSet fin noempty bound kne by (auto simp: st)
  next
    case False
    then have st: "FallbackCache_Set fc now order key d ttl
               = fc\<lparr> entries := (entries fc)(key \<mapsto> \<lparr> data = d, expiresAt = time_Add now ttl \<rparr>) \<rparr>"
      by (simp add: FallbackCache_Set_def)
    have "card (dom (entries fc) \<union> {key}) \<le> card (dom (entries fc)) + 1"
      using fin by (simp add: card_insert_if)
    then have "len_entries (FallbackCache_Set fc now order key d ttl) \<le> len_entries fc + 1"
      by (simp add: st len_entries_def)
    then show ?thesis
      using OpSet fin noempty False kne by (auto simp: st)
  qed
next
  case (OpDelete key)
  have "card (dom (entries fc) - {key}) \<le> card (dom (entries fc))"
    using fin by (simp add: card_Diff1_le)
  then show ?thesis
    using OpDelete fin noempty bound by (auto simp: FallbackCache_Delete_def len_entries_def)
next
  case (OpCleanup now order)
  have sub: "dom (cleanup_scan now (entries fc) order) \<subseteq> dom (entries fc)"
    by (rule dom_cleanup_scan)
  then have "card (dom (cleanup_scan now (entries fc) order)) \<le> card (dom (entries fc))"
    using fin by (simp add: card_mono)
  moreover have "finite (dom (cleanup_scan now (entries fc) order))"
    using sub fin by (rule finite_subset)
  ultimately show ?thesis
    using OpCleanup sub noempty bound by (auto simp: cleanup_tick_def len_entries_def)
qed

lemma fb_run_bounded:
  "finite (dom (entries fc)) \<Longrightarrow> [] \<notin> dom (entries fc) \<Longrightarrow> len_entries fc \<le> maxSize fc \<Longrightarrow>
   1 \<le> maxSize fc \<Longrightarrow> fb_ops_ok fc ops \<Longrightarrow>
   finite (dom (entries (fb_run fc ops))) \<and> [] \<notin> dom (entries (fb_run fc ops))
   \<and> len_entries (fb_run fc ops) \<le> maxSize fc \<and> maxSize (fb_run fc ops) = maxSize fc"
proof (induction ops arbitrary: fc)
  case Nil
  then show ?case by simp
next
  case (Cons op ops)
  from Cons.prems have ok: "fb_op_ok fc op" and rest: "fb_ops_ok (fb_step fc op) ops"
    by simp_all
  note s = fb_step_bounded [OF Cons.prems(1,2,3,4) ok]
  from s Cons.prems(4) have c: "1 \<le> maxSize (fb_step fc op)" by simp
  from s have s1: "finite (dom (entries (fb_step fc op)))"
    and s2: "[] \<notin> dom (entries (fb_step fc op))"
    and s3: "len_entries (fb_step fc op) \<le> maxSize (fb_step fc op)"
    and s4: "maxSize (fb_step fc op) = maxSize fc"
    by simp_all
  from Cons.IH [OF s1 s2 s3 c rest] s4 show ?case
    by simp
qed

lemma scenario_map:
  "entries (fb_run (NewFallbackCache 2) [OpSet ''A'' dA 1000000000 tA oA, OpSet ''B'' dB 10000000000 tB oB])
   = [''A'' \<mapsto> \<lparr> data = dA, expiresAt = tA + 1000000000 \<rparr>,
      ''B'' \<mapsto> \<lparr> data = dB, expiresAt = tB + 10000000000 \<rparr>]"
  by (simp add: NewFallbackCache_def FallbackCache_Set_def len_entries_def time_Add_def)

lemma scenario_evicts_A:
  assumes mono: "tA \<le> tB"
    and ord: "range_order (entries (fb_run (NewFallbackCache 2)
                 [OpSet ''A'' dA 1000000000 tA oA, OpSet ''B'' dB 10000000000 tB oB])) order"
  shows "entries (fb_run (NewFallbackCache 2)
           [OpSet ''A'' dA 1000000000 tA oA, OpSet ''B'' dB 10000000000 tB oB,
            OpSet ''C'' dC 5000000000 tC order])
         = [''B'' \<mapsto> \<lparr> data = dB, expiresAt = tB + 10000000000 \<rparr>,
            ''C'' \<mapsto> \<lparr> data = dC, expiresAt = tC + 5000000000 \<rparr>]"
proof -
  define st where "st = fb_run (NewFallbackCache 2)
               [OpSet ''A'' dA 1000000000 tA oA, OpSet ''B'' dB 10000000000 tB oB]"
  have m: "entries st = [''A'' \<mapsto> \<lparr> data = dA, expiresAt = tA + 1000000000 \<rparr>,
      ''B'' \<mapsto> \<lparr> data = dB, expiresAt = tB + 10000000000 \<rparr>]"
    unfolding st_def by (rule scenario_map)
  have ms: "maxSize st = 2"
    unfolding st_def by (simp add: NewFallbackCache_def FallbackCache_Set_def len_entries_def)
  have ord': "range_order (entries st) order"
    using ord unfolding st_def .
  have dm: "dom (entries st) = {''A'', ''B''}"
    by (auto simp: m)
  have len: "len_entries st = 2"
    by (simp add: len_entries_def dm)
  have fin: "finite (dom (entries st))" by (simp add: dm)
  have noempty: "[] \<notin> dom (entries st)" by (simp add: dm)
  have full: "maxSize st \<le> len_entries st" by (simp add: ms len)
  have pos: "1 \<le> len_entries st" by (simp add: len)
  from Set_at_capacity [OF fin noempty full pos ord', of tC "''C''" dC 5000000000]
  obtain victim where v: "victim \<in> dom (entries st)"
    and least: "\<forall>k' \<in> dom (entries st).
               expiresAt (the (entries st victim)) \<le> expiresAt (the (entries st k'))"
    and upd: "FallbackCache_Set st tC order ''C'' dC 5000000000
            = st\<lparr> entries := (entries st)(victim := None,
                     ''C'' \<mapsto> \<lparr> data = dC, expiresAt = time_Add tC 5000000000 \<rparr>) \<rparr>"
    by blast
  have "victim \<noteq> ''B''"
  proof
    assume b: "victim = ''B''"
    have "''A'' \<in> dom (entries st)" by (simp add: dm)
    with least have "expiresAt (the (entries st ''B'')) \<le> expiresAt (the (entries st ''A''))"
      unfolding b by blast
    then show False using mono by (simp add: m)
  qed
  with v have va: "victim = ''A''" by (simp add: dm)
  have run: "fb_run (NewFallbackCache 2)
           [OpSet ''A'' dA 1000000000 tA oA, OpSet ''B'' dB 10000000000 tB oB,
            OpSet ''C'' dC 5000000000 tC order]
          = FallbackCache_Set st tC order ''C'' dC 5000000000"
    unfolding st_def by simp
  show ?thesis
    unfolding run upd va by (auto simp: m time_Add_def)
qed

text \<open>
  Claim C4, as amended. Let the configured capacity be at least one, and let a sequence of
  store operations start from the new store, every \<open>Set\<close> with a key that is not the empty
  string. Then the store reached holds no more entries than its capacity. A \<open>Set\<close> on that
  store when it is at capacity first evicts exactly one entry, one whose expiry is the
  earliest among all current entries, and then inserts the new one. With capacity 2,
  inserting A (ttl 1s), B (ttl 10s) and C (ttl 5s) in that order, A no later than B, evicts
  A and leaves exactly B and C, whatever order the eviction loop visits the map in.
\<close>

theorem fallback_store_bounded:
  assumes cap: "1 \<le> n"
    and ok: "fb_ops_ok (NewFallbackCache n) ops"
    and st: "st = fb_run (NewFallbackCache n) ops"
  shows "len_entries st \<le> n
       \<and> maxSize st = n
       \<and> (\<forall>now order key d ttl.
             n \<le> len_entries st \<and> range_order (entries st) order \<longrightarrow>
             (\<exists>victim \<in> dom (entries st).
                 (\<forall>k' \<in> dom (entries st).
                     expiresAt (the (entries st victim)) \<le> expiresAt (the (entries st k')))
                 \<and> evictOldest st order = st\<lparr> entries := (entries st)(victim := None) \<rparr>
                 \<and> len_entries (evictOldest st order) = len_entries st - 1
                 \<and> FallbackCache_Set st now order key d ttl
                     = st\<lparr> entries := (entries st)(victim := None,
                                key \<mapsto> \<lparr> data = d, expiresAt = time_Add now ttl \<rparr>) \<rparr>))
       \<and> (\<forall>tA tB tC dA dB dC oA oB order.
             tA \<le> tB
             \<and> range_order (entries (fb_run (NewFallbackCache 2)
                   [OpSet ''A'' dA 1000000000 tA oA, OpSet ''B'' dB 10000000000 tB oB])) order \<longrightarrow>
             entries (fb_run (NewFallbackCache 2)
                [OpSet ''A'' dA 1000000000 tA oA, OpSet ''B'' dB 10000000000 tB oB,
                 OpSet ''C'' dC 5000000000 tC order])
             = [''B'' \<mapsto> \<lparr> data = dB, expiresAt = tB + 10000000000 \<rparr>,
                ''C'' \<mapsto> \<lparr> data = dC, expiresAt = tC + 5000000000 \<rparr>])"
proof -
  have init: "finite (dom (entries (NewFallbackCache n)))"
    "[] \<notin> dom (entries (NewFallbackCache n))"
    "len_entries (NewFallbackCache n) \<le> maxSize (NewFallbackCache n)"
    "1 \<le> maxSize (NewFallbackCache n)"
    using cap by (simp_all add: NewFallbackCache_def len_entries_def)
  have mx: "maxSize (NewFallbackCache n) = n"
    by (simp add: NewFallbackCache_def)
  from fb_run_bounded [OF init ok]
  have fin: "finite (dom (entries st))" and noempty: "[] \<notin> dom (entries st)"
    and bound: "len_entries st \<le> n" and same: "maxSize st = n"
    by (simp_all add: st mx)
  have evict: "\<exists>victim \<in> dom (entries st).
                 (\<forall>k' \<in> dom (entries st).
                     expiresAt (the (entries st victim)) \<le> expiresAt (the (entries st k')))
                 \<and> evictOldest st order = st\<lparr> entries := (entries st)(victim := None) \<rparr>
                 \<and> len_entries (evictOldest st order) = len_entries st - 1
                 \<and> FallbackCache_Set st now order key d ttl
                     = st\<lparr> entries := (entries st)(victim := None,
                                key \<mapsto> \<lparr> data = d, expiresAt = time_Add now ttl \<rparr>) \<rparr>"
    if "n \<le> len_entries st" "range_order (entries st) order" for now order key d ttl
  proof -
    have full: "maxSize st \<le> len_entries st" using that(1) same by simp
    have pos: "1 \<le> len_entries st" using that(1) cap by simp
    show ?thesis
      by (rule Set_at_capacity [OF fin noempty full pos that(2)])
  qed
  show ?thesis
    using bound same evict scenario_evicts_A by blast
qed

theorem fallback_store_bounded_witness:
  "(1::int) \<le> 2
   \<and> fb_ops_ok (NewFallbackCache 2)
        [OpSet ''A'' [1] 1000000000 0 [], OpSet ''B'' [2] 10000000000 1 [''A''],
         OpSet ''C'' [3] 5000000000 2 [''B'', ''A'']]
   \<and> len_entries (fb_run (NewFallbackCache 2)
        [OpSet ''A'' [1] 1000000000 0 [], OpSet ''B'' [2] 10000000000 1 [''A''],
         OpSet ''C'' [3] 5000000000 2 [''B'', ''A'']]) \<le> 2
   \<and> entries (fb_run (NewFallbackCache 2)
        [OpSet ''A'' [1] 1000000000 0 [], OpSet ''B'' [2] 10000000000 1 [''A''],
         OpSet ''C'' [3] 5000000000 2 [''B'', ''A'']])
       = [''B'' \<mapsto> \<lparr> data = [2], expiresAt = 10000000001 \<rparr>,
          ''C'' \<mapsto> \<lparr> data = [3], expiresAt = 5000000002 \<rparr>]"
proof -
  have h1: "(1::int) \<le> 2" by simp
  have r2: "range_order (entries (fb_run (NewFallbackCache 2)
              [OpSet ''A'' [1] 1000000000 0 [], OpSet ''B'' [2] 10000000000 1 [''A'']]))
              [''B'', ''A'']"
    by (auto simp: range_order_def NewFallbackCache_def FallbackCache_Set_def len_entries_def)
  have h2: "fb_ops_ok (NewFallbackCache 2)
        [OpSet ''A'' [1] 1000000000 0 [], OpSet ''B'' [2] 10000000000 1 [''A''],
         OpSet ''C'' [3] 5000000000 2 [''B'', ''A'']]"
    using r2 by (auto simp: range_order_def NewFallbackCache_def FallbackCache_Set_def len_entries_def)
  have mono: "(0::int) \<le> 1" by simp
  note main = fallback_store_bounded [OF h1 h2 refl]
  from main mono r2 have sc: "entries (fb_run (NewFallbackCache 2)
        [OpSet ''A'' [1] 1000000000 0 [], OpSet ''B'' [2] 10000000000 1 [''A''],
         OpSet ''C'' [3] 5000000000 2 [''B'', ''A'']])
       = [''B'' \<mapsto> \<lparr> data = [2], expiresAt = 1 + 10000000000 \<rparr>,
          ''C'' \<mapsto> \<lparr> data = [3], expiresAt = 2 + 5000000000 \<rparr>]"
    by blast
  from main have b: "len_entries (fb_run (NewFallbackCache 2)
        [OpSet ''A'' [1] 1000000000 0 [], OpSet ''B'' [2] 10000000000 1 [''A''],
         OpSet ''C'' [3] 5000000000 2 [''B'', ''A'']]) \<le> 2"
    by blast
  show ?thesis
    using h1 h2 b sc by simp
qed

text \<open>
  The claim as stated fails in two ways. With capacity 0 a \<open>Set\<close> on the empty store finds
  nothing to evict and inserts, leaving one entry. With capacity 1 and an entry under the
  empty key, the eviction loop ends with the empty string as its choice, which
  \<open>evictOldest\<close> reads as "nothing chosen": nothing is evicted and the store holds two
  entries.
\<close>

theorem fallback_store_bounded_counterexample:
  "range_order (entries (NewFallbackCache 0)) []
   \<and> maxSize (FallbackCache_Set (NewFallbackCache 0) 0 [] ''A'' [1] 1000000000) = 0
   \<and> len_entries (FallbackCache_Set (NewFallbackCache 0) 0 [] ''A'' [1] 1000000000) = 1
   \<and> range_order (entries (FallbackCache_Set (NewFallbackCache 1) 0 [] [] [1] 1000000000)) [[]]
   \<and> maxSize (FallbackCache_Set (FallbackCache_Set (NewFallbackCache 1) 0 [] [] [1] 1000000000)
                 1 [[]] ''A'' [2] 1000000000) = 1
   \<and> len_entries (FallbackCache_Set (FallbackCache_Set (NewFallbackCache 1) 0 [] [] [1] 1000000000)
                 1 [[]] ''A'' [2] 1000000000) = 2"
  by (simp add: range_order_def NewFallbackCache_def FallbackCache_Set_def len_entries_def
      evictOldest_def)

lemma cleanup_scan_cases:
  "cleanup_scan t m order k = None \<or> cleanup_scan t m order k = m k"
proof (induction order arbitrary: m)
  case Nil
  then show ?case by simp
next
  case (Cons key rest)
  show ?case
  proof (cases "m key")
    case None
    then show ?thesis using Cons.IH [of m] by simp
  next
    case (Some entry)
    show ?thesis
    proof (cases "time_After t (expiresAt entry)")
      case True
      have ih: "cleanup_scan t (m(key := None)) rest k = None
              \<or> cleanup_scan t (m(key := None)) rest k = (m(key := None)) k"
        by (rule Cons.IH)
      have "cleanup_scan t (m(key := None)) rest k = None
          \<or> cleanup_scan t (m(key := None)) rest k = m k"
      proof (cases "k = key")
        case True
        with ih show ?thesis by simp
      next
        case False
        with ih show ?thesis by simp
      qed
      then show ?thesis
        using True Some by simp
    next
      case False
      then show ?thesis using Some Cons.IH [of m] by simp
    qed
  qed
qed

lemma cleanup_scan_removes:
  "k \<in> set order \<Longrightarrow> m k = Some e \<Longrightarrow> expiresAt e < t \<Longrightarrow> cleanup_scan t m order k = None"
proof (induction order arbitrary: m)
  case Nil
  then show ?case by simp
next
  case (Cons key rest)
  show ?case
  proof (cases "key = k")
    case True
    have "cleanup_scan t (m(k := None)) rest k = None"
      using cleanup_scan_cases [of t "m(k := None)" rest k] by simp
    then show ?thesis
      using True Cons.prems by (simp add: time_After_def)
  next
    case False
    with Cons.prems have mem: "k \<in> set rest" by simp
    have a: "cleanup_scan t m rest k = None"
      using mem Cons.prems(2,3) by (rule Cons.IH [of m])
    have "(m(key := None)) k = Some e" using False Cons.prems(2) by simp
    with mem have b: "cleanup_scan t (m(key := None)) rest k = None"
      using Cons.prems(3) by (rule Cons.IH [of "m(key := None)"])
    show ?thesis
      using a b by (simp split: option.splits)
  qed
qed

text \<open>
  Claim C9. If the entry stored under a key has an expiry instant in the past, \<open>Get\<close> of
  that key returns not-found; and it does so whether or not a sweep, at any time and in
  any order, ran before the \<open>Get\<close>.
\<close>

theorem expired_entry_not_found:
  assumes present: "entries fc key = Some e"
    and past: "expiresAt e < now"
  shows "fst (FallbackCache_Get fc now key) = None
       \<and> (\<forall>t order. fst (FallbackCache_Get (cleanup_tick fc t order) now key) = None)"
proof -
  have direct: "fst (FallbackCache_Get fc now key) = None"
    using present past by (simp add: FallbackCache_Get_def time_After_def)
  have swept: "fst (FallbackCache_Get (cleanup_tick fc t order) now key) = None" for t order
    using cleanup_scan_cases [of t "entries fc" order key] present past
    by (auto simp: FallbackCache_Get_def cleanup_tick_def time_After_def)
  show ?thesis
    using direct swept by simp
qed

theorem expired_entry_not_found_witness:
  "entries (FallbackCache_Set (NewFallbackCache 2) 0 [] ''A'' [7] 5) ''A''
     = Some \<lparr> data = [7], expiresAt = 5 \<rparr>
   \<and> expiresAt \<lparr> data = [7], expiresAt = 5 \<rparr> < 6
   \<and> fst (FallbackCache_Get (FallbackCache_Set (NewFallbackCache 2) 0 [] ''A'' [7] 5) 6 ''A'') = None
   \<and> fst (FallbackCache_Get (FallbackCache_Set (NewFallbackCache 2) 0 [] ''A'' [7] 5) 5 ''A'') = Some [7]"
proof -
  have h1: "entries (FallbackCache_Set (NewFallbackCache 2) 0 [] ''A'' [7] 5) ''A''
     = Some \<lparr> data = [7], expiresAt = 5 \<rparr>"
    by (simp add: FallbackCache_Set_def NewFallbackCache_def len_entries_def time_Add_def)
  have h2: "expiresAt \<lparr> data = [7], expiresAt = 5 \<rparr> < (6::int)"
    by simp
  have live: "fst (FallbackCache_Get (FallbackCache_Set (NewFallbackCache 2) 0 [] ''A'' [7] 5) 5 ''A'')
              = Some [7]"
    by (simp add: FallbackCache_Get_def FallbackCache_Set_def NewFallbackCache_def len_entries_def
        time_Add_def time_After_def)
  show ?thesis
    using h1 h2 live expired_entry_not_found [OF h1 h2] by simp
qed

lemma evictOldest_strict_min:
  assumes ord: "range_order (entries fc) order"
    and noempty: "[] \<notin> dom (entries fc)"
    and present: "entries fc key = Some e"
    and least: "\<forall>k' \<in> dom (entries fc) - {key}. expiresAt e < expiresAt (the (entries fc k'))"
  shows "evictOldest fc order = fc\<lparr> entries := (entries fc)(key := None) \<rparr>"
proof -
  have nonempty: "dom (entries fc) \<noteq> {}" using present by auto
  from evictOldest_victim [OF ord noempty nonempty]
  obtain victim where v: "victim \<in> dom (entries fc)"
    and vmin: "\<forall>k' \<in> dom (entries fc).
               expiresAt (the (entries fc victim)) \<le> expiresAt (the (entries fc k'))"
    and ev: "evictOldest fc order = fc\<lparr> entries := (entries fc)(victim := None) \<rparr>"
    by blast
  have "victim = key"
  proof (rule ccontr)
    assume ne: "victim \<noteq> key"
    with v least have a: "expiresAt e < expiresAt (the (entries fc victim))" by blast
    have "key \<in> dom (entries fc)" using present by auto
    with vmin have "expiresAt (the (entries fc victim)) \<le> expiresAt (the (entries fc key))"
      by blast
    with a present show False by simp
  qed
  with ev show ?thesis by simp
qed

text \<open>
  Claim C10. \<open>Get\<close> on an entry whose expiry has passed answers not-found and leaves the
  store exactly as it was: the entry is still stored under its key and still counts
  towards the number of entries. \<open>Get\<close> changes no store, whatever the key and the time.
  The expired entry is still the one \<open>evictOldest\<close> removes when its expiry is strictly the
  earliest, and it is gone after \<open>Delete\<close> of its key and after a sweep that runs at that
  time or later and visits its key.
\<close>

theorem get_keeps_expired_entry:
  assumes present: "entries fc key = Some e"
    and past: "expiresAt e < now"
  shows "FallbackCache_Get fc now key = (None, fc)
       \<and> entries (snd (FallbackCache_Get fc now key)) key = Some e
       \<and> len_entries (snd (FallbackCache_Get fc now key)) = len_entries fc
       \<and> (\<forall>fc' t k. snd (FallbackCache_Get fc' t k) = fc')
       \<and> (\<forall>order. range_order (entries fc) order \<and> [] \<notin> dom (entries fc)
             \<and> (\<forall>k' \<in> dom (entries fc) - {key}. expiresAt e < expiresAt (the (entries fc k'))) \<longrightarrow>
             evictOldest (snd (FallbackCache_Get fc now key)) order
               = fc\<lparr> entries := (entries fc)(key := None) \<rparr>)
       \<and> entries (FallbackCache_Delete (snd (FallbackCache_Get fc now key)) key) key = None
       \<and> (\<forall>t order. now \<le> t \<and> key \<in> set order \<longrightarrow>
             entries (cleanup_tick (snd (FallbackCache_Get fc now key)) t order) key = None)"
proof -
  have got: "FallbackCache_Get fc now key = (None, fc)"
    using present past by (simp add: FallbackCache_Get_def time_After_def)
  have frame: "snd (FallbackCache_Get fc' t k) = fc'" for fc' t k
    by (simp add: FallbackCache_Get_def split: option.splits)
  have victim: "evictOldest fc order = fc\<lparr> entries := (entries fc)(key := None) \<rparr>"
    if "range_order (entries fc) order" "[] \<notin> dom (entries fc)"
      "\<forall>k' \<in> dom (entries fc) - {key}. expiresAt e < expiresAt (the (entries fc k'))"
    for order
    using that(1,2) present that(3) by (rule evictOldest_strict_min)
  have deleted: "entries (FallbackCache_Delete fc key) key = None"
    by (simp add: FallbackCache_Delete_def)
  have swept: "entries (cleanup_tick fc t order) key = None"
    if "now \<le> t" "key \<in> set order" for t order
  proof -
    have "expiresAt e < t" using past that(1) by simp
    with that(2) present have "cleanup_scan t (entries fc) order key = None"
      by (rule cleanup_scan_removes)
    then show ?thesis by (simp add: cleanup_tick_def)
  qed
  show ?thesis
    unfolding got using present frame victim deleted swept by simp
qed

theorem get_keeps_expired_entry_witness:
  "entries \<lparr> entries = [''A'' \<mapsto> \<lparr> data = [1], expiresAt = 5 \<rparr>,
                         ''B'' \<mapsto> \<lparr> data = [2], expiresAt = 100 \<rparr>], maxSize = 2 \<rparr> ''A''
     = Some \<lparr> data = [1], expiresAt = 5 \<rparr>
   \<and> expiresAt \<lparr> data = [1], expiresAt = 5 \<rparr> < 6
   \<and> FallbackCache_Get
         \<lparr> entries = [''A'' \<mapsto> \<lparr> data = [1], expiresAt = 5 \<rparr>,
                       ''B'' \<mapsto> \<lparr> data = [2], expiresAt = 100 \<rparr>], maxSize = 2 \<rparr> 6 ''A''
       = (None, \<lparr> entries = [''A'' \<mapsto> \<lparr> data = [1], expiresAt = 5 \<rparr>,
                              ''B'' \<mapsto> \<lparr> data = [2], expiresAt = 100 \<rparr>], maxSize = 2 \<rparr>)
   \<and> evictOldest
         (snd (FallbackCache_Get
            \<lparr> entries = [''A'' \<mapsto> \<lparr> data = [1], expiresAt = 5 \<rparr>,
                          ''B'' \<mapsto> \<lparr> data = [2], expiresAt = 100 \<rparr>], maxSize = 2 \<rparr> 6 ''A''))
         [''B'', ''A'']
       = \<lparr> entries = [''B'' \<mapsto> \<lparr> data = [2], expiresAt = 100 \<rparr>], maxSize = 2 \<rparr>
   \<and> entries (cleanup_tick
         (snd (FallbackCache_Get
            \<lparr> entries = [''A'' \<mapsto> \<lparr> data = [1], expiresAt = 5 \<rparr>,
                          ''B'' \<mapsto> \<lparr> data = [2], expiresAt = 100 \<rparr>], maxSize = 2 \<rparr> 6 ''A''))
         7 [''B'', ''A'']) ''A'' = None"
proof -
  define fc where "fc = \<lparr> entries = [''A'' \<mapsto> \<lparr> data = [1], expiresAt = 5 \<rparr>,
                         ''B'' \<mapsto> \<lparr> data = [2], expiresAt = 100 \<rparr>], maxSize = (2::int) \<rparr>"
  have h1: "entries fc ''A'' = Some \<lparr> data = [1], expiresAt = 5 \<rparr>"
    by (simp add: fc_def)
  have h2: "expiresAt \<lparr> data = [1::8 word], expiresAt = 5 \<rparr> < 6"
    by simp
  have dm: "dom (entries fc) = {''A'', ''B''}"
    by (auto simp: fc_def)
  have o: "range_order (entries fc) [''B'', ''A'']"
    by (auto simp: range_order_def dm)
  have ne: "[] \<notin> dom (entries fc)"
    by (simp add: dm)
  have least: "\<forall>k' \<in> dom (entries fc) - {''A''}.
                 expiresAt \<lparr> data = [1::8 word], expiresAt = 5 \<rparr> < expiresAt (the (entries fc k'))"
    by (simp add: dm) (simp add: fc_def)
  have t: "(6::int) \<le> 7" and mem: "''A'' \<in> set [''B'', ''A'']"
    by simp_all
  note main = get_keeps_expired_entry [OF h1 h2]
  from main have a: "FallbackCache_Get fc 6 ''A'' = (None, fc)"
    by blast
  from main o ne least
  have b: "evictOldest (snd (FallbackCache_Get fc 6 ''A'')) [''B'', ''A'']
           = fc\<lparr> entries := (entries fc)(''A'' := None) \<rparr>"
    by blast
  from main t mem
  have c: "entries (cleanup_tick (snd (FallbackCache_Get fc 6 ''A'')) 7 [''B'', ''A'']) ''A'' = None"
    by blast
  have d: "fc\<lparr> entries := (entries fc)(''A'' := None) \<rparr>
           = \<lparr> entries = [''B'' \<mapsto> \<lparr> data = [2], expiresAt = 100 \<rparr>], maxSize = 2 \<rparr>"
    by (auto simp: fc_def)
  show ?thesis
    using h1 h2 a b c d unfolding fc_def by simp
qed

section \<open>The cache in front of the client\<close>

lemma Set_stores_entry:
  "entries (FallbackCache_Set fc now order key d ttl) key
   = Some \<lparr> data = d, expiresAt = now + ttl \<rparr>"
  by (simp add: FallbackCache_Set_def Let_def time_Add_def)

lemma Cache_Set_fallback:
  "fallback (fst (snd (Cache_Set c e reply key d ttl)))
   = FallbackCache_Set (fallback c) (nowFallback e) (rangeOrder e) key d
       (if ttl = 0 then defaultExpiration else ttl)"
  by (simp add: Cache_Set_def Let_def split: prod.splits option.splits)

lemma Cache_Get_remote_fails:
  "fst (FallbackCache_Get (fallback c) (nowFallback e) key) = Some d \<Longrightarrow>
   fst (Cache_Get c e (Inl err) key) = Inr d"
  by (simp add: Cache_Get_def Let_def split: prod.splits)

text \<open>
  Claim C1. \<open>Set\<close> of a key and a value followed by \<open>Get\<close> of the same key returns the
  same bytes when the client fails the read (with any error, \<open>redis.Nil\<close> included),
  whatever the client answered to the write and whatever state the breaker and the
  fallback store were in, provided the \<open>Get\<close> reads the fallback store no later than the
  expiry that \<open>Set\<close> gave the entry (the ttl, or the default when the ttl is zero).
\<close>

theorem set_then_get_roundtrip:
  assumes live: "nowFallback eg \<le> nowFallback es + (if ttl = 0 then defaultExpiration else ttl)"
  shows "fst (Cache_Get (fst (snd (Cache_Set c es sreply key d ttl))) eg (Inl gerr) key) = Inr d"
proof -
  let ?c1 = "fst (snd (Cache_Set c es sreply key d ttl))"
  have stored: "entries (fallback ?c1) key
      = Some \<lparr> data = d,
               expiresAt = nowFallback es + (if ttl = 0 then defaultExpiration else ttl) \<rparr>"
    by (simp only: Cache_Set_fallback Set_stores_entry)
  have "fst (FallbackCache_Get (fallback ?c1) (nowFallback eg) key) = Some d"
    using live by (simp add: FallbackCache_Get_def stored time_After_def)
  then show ?thesis
    by (rule Cache_Get_remote_fails)
qed

theorem set_then_get_roundtrip_witness:
  "nowFallback \<lparr> nowFallback = 10, nowAllow = 11, nowRecord = 12, rangeOrder = [''k''] \<rparr>
     \<le> nowFallback \<lparr> nowFallback = 0, nowAllow = 1, nowRecord = 2, rangeOrder = [] \<rparr>
         + (if (0::int) = 0 then defaultExpiration else 0)
   \<and> fst (Cache_Get
            (fst (snd (Cache_Set NewCache
                         \<lparr> nowFallback = 0, nowAllow = 1, nowRecord = 2, rangeOrder = [] \<rparr>
                         (Some (redis_Failure ''down'')) ''k'' [1, 2, 3] 0)))
            \<lparr> nowFallback = 10, nowAllow = 11, nowRecord = 12, rangeOrder = [''k''] \<rparr>
            (Inl (redis_Failure ''down'')) ''k'')
       = Inr [1, 2, 3]"
proof -
  have h: "nowFallback \<lparr> nowFallback = 10, nowAllow = 11, nowRecord = 12, rangeOrder = [''k''] \<rparr>
     \<le> nowFallback \<lparr> nowFallback = 0, nowAllow = 1, nowRecord = 2, rangeOrder = [] \<rparr>
         + (if (0::int) = 0 then defaultExpiration else 0)"
    by (simp add: defaultExpiration_def)
  show ?thesis
    using h set_then_get_roundtrip [OF h] by blast
qed

text \<open>
  Claim C7. \<open>Set\<close> always leaves the fallback store as \<open>FallbackCache.Set\<close> of the key and
  the value makes it, with the given ttl or the default when the ttl is zero. When the
  breaker does not allow the call, \<open>Set\<close> returns no error, sends no command to the client
  and leaves the breaker as \<open>Allow\<close> left it. Otherwise it sends the one \<open>SET\<close> command; on
  the client's success it returns no error and records a success, and on the client's
  error it returns that error and records a failure, the fallback store holding the value
  all the same.
\<close>

theorem set_writes_fallback_first:
  assumes run: "Cache_Set c e reply key d ttl = (res, c1, cmds)"
    and exp: "expiration = (if ttl = 0 then defaultExpiration else ttl)"
  shows "fallback c1
           = FallbackCache_Set (fallback c) (nowFallback e) (rangeOrder e) key d expiration
       \<and> entries (fallback c1) key
           = Some \<lparr> data = d, expiresAt = nowFallback e + expiration \<rparr>
       \<and> (\<not> fst (Allow (nowAllow e) (cb c)) \<longrightarrow>
             res = None \<and> cmds = [] \<and> cb c1 = snd (Allow (nowAllow e) (cb c)))
       \<and> (fst (Allow (nowAllow e) (cb c)) \<longrightarrow>
             cmds = [Cmd_Set key d expiration]
             \<and> (reply = None \<longrightarrow>
                   res = None
                   \<and> cb c1 = RecordSuccess (nowRecord e) (snd (Allow (nowAllow e) (cb c))))
             \<and> (\<forall>err. reply = Some err \<longrightarrow>
                   res = Some (ErrRemote err)
                   \<and> cb c1 = RecordFailure (nowRecord e) (snd (Allow (nowAllow e) (cb c)))))"
proof -
  have fb: "fallback c1
           = FallbackCache_Set (fallback c) (nowFallback e) (rangeOrder e) key d expiration"
    using Cache_Set_fallback [of c e reply key d ttl] run exp by simp
  have stored: "entries (fallback c1) key
           = Some \<lparr> data = d, expiresAt = nowFallback e + expiration \<rparr>"
    by (simp only: fb Set_stores_entry)
  have denied: "res = None \<and> cmds = [] \<and> cb c1 = snd (Allow (nowAllow e) (cb c))"
    if "\<not> fst (Allow (nowAllow e) (cb c))"
    using run that by (auto simp: Cache_Set_def Let_def split: prod.splits)
  have sent: "cmds = [Cmd_Set key d expiration]"
    if "fst (Allow (nowAllow e) (cb c))"
    using run that exp by (auto simp: Cache_Set_def Let_def split: prod.splits option.splits)
  have good: "res = None
        \<and> cb c1 = RecordSuccess (nowRecord e) (snd (Allow (nowAllow e) (cb c)))"
    if "fst (Allow (nowAllow e) (cb c))" "reply = None"
    using run that by (auto simp: Cache_Set_def Let_def split: prod.splits)
  have bad: "res = Some (ErrRemote err)
        \<and> cb c1 = RecordFailure (nowRecord e) (snd (Allow (nowAllow e) (cb c)))"
    if "fst (Allow (nowAllow e) (cb c))" "reply = Some err" for err
    using run that by (auto simp: Cache_Set_def Let_def split: prod.splits)
  show ?thesis
    using fb stored denied sent good bad by blast
qed

theorem set_writes_fallback_first_witness:
  "fst (Allow 1 (cb NewCache))
   \<and> fst (Cache_Set NewCache \<lparr> nowFallback = 0, nowAllow = 1, nowRecord = 2, rangeOrder = [] \<rparr>
            (Some (redis_Failure ''down'')) ''k'' [1] 0)
       = Some (ErrRemote (redis_Failure ''down''))
   \<and> snd (snd (Cache_Set NewCache \<lparr> nowFallback = 0, nowAllow = 1, nowRecord = 2, rangeOrder = [] \<rparr>
            (Some (redis_Failure ''down'')) ''k'' [1] 0))
       = [Cmd_Set ''k'' [1] defaultExpiration]
   \<and> entries (fallback (fst (snd (Cache_Set NewCache
            \<lparr> nowFallback = 0, nowAllow = 1, nowRecord = 2, rangeOrder = [] \<rparr>
            (Some (redis_Failure ''down'')) ''k'' [1] 0)))) ''k''
       = Some \<lparr> data = [1], expiresAt = 0 + defaultExpiration \<rparr>
   \<and> fst (Cache_Set NewCache \<lparr> nowFallback = 0, nowAllow = 1, nowRecord = 2, rangeOrder = [] \<rparr>
            None ''k'' [1] 5)
       = None
   \<and> \<not> fst (Allow 6 (cb (NewCache\<lparr> cb := record_failures (cb NewCache) [1, 2, 3, 4, 5] \<rparr>)))
   \<and> fst (Cache_Set (NewCache\<lparr> cb := record_failures (cb NewCache) [1, 2, 3, 4, 5] \<rparr>)
            \<lparr> nowFallback = 5, nowAllow = 6, nowRecord = 7, rangeOrder = [] \<rparr>
            (Some (redis_Failure ''down'')) ''k'' [1] 0)
       = None
   \<and> snd (snd (Cache_Set (NewCache\<lparr> cb := record_failures (cb NewCache) [1, 2, 3, 4, 5] \<rparr>)
            \<lparr> nowFallback = 5, nowAllow = 6, nowRecord = 7, rangeOrder = [] \<rparr>
            (Some (redis_Failure ''down'')) ''k'' [1] 0))
       = []"
proof -
  let ?e = "\<lparr> nowFallback = 0, nowAllow = 1, nowRecord = 2, rangeOrder = [] \<rparr>"
  let ?e2 = "\<lparr> nowFallback = 5, nowAllow = 6, nowRecord = 7, rangeOrder = [] \<rparr>"
  let ?down = "Some (redis_Failure ''down'')"
  let ?open = "NewCache\<lparr> cb := record_failures (cb NewCache) [1, 2, 3, 4, 5] \<rparr>"
  have allowed: "fst (Allow (nowAllow ?e) (cb NewCache))"
    by (simp add: NewCache_def NewCircuitBreaker_def Allow_def)
  have denied: "\<not> fst (Allow (nowAllow ?e2) (cb ?open))"
    by (simp add: NewCache_def NewCircuitBreaker_def Allow_def RecordFailure_def Let_def
        cbThreshold_def cbResetTimeout_def time_Since_def maxDuration_def minDuration_def)
  have r1: "Cache_Set NewCache ?e ?down ''k'' [1] 0
            = (fst (Cache_Set NewCache ?e ?down ''k'' [1] 0),
               fst (snd (Cache_Set NewCache ?e ?down ''k'' [1] 0)),
               snd (snd (Cache_Set NewCache ?e ?down ''k'' [1] 0)))"
    by simp
  have x1: "defaultExpiration = (if (0::int) = 0 then defaultExpiration else 0)"
    by simp
  have r2: "Cache_Set NewCache ?e None ''k'' [1] 5
            = (fst (Cache_Set NewCache ?e None ''k'' [1] 5),
               fst (snd (Cache_Set NewCache ?e None ''k'' [1] 5)),
               snd (snd (Cache_Set NewCache ?e None ''k'' [1] 5)))"
    by simp
  have x2: "(5::int) = (if (5::int) = 0 then defaultExpiration else 5)"
    by simp
  have r3: "Cache_Set ?open ?e2 ?down ''k'' [1] 0
            = (fst (Cache_Set ?open ?e2 ?down ''k'' [1] 0),
               fst (snd (Cache_Set ?open ?e2 ?down ''k'' [1] 0)),
               snd (snd (Cache_Set ?open ?e2 ?down ''k'' [1] 0)))"
    by simp
  note a = set_writes_fallback_first [OF r1 x1]
  note b = set_writes_fallback_first [OF r2 x2]
  note c = set_writes_fallback_first [OF r3 x1]
  from a allowed have a1: "fst (Cache_Set NewCache ?e ?down ''k'' [1] 0)
       = Some (ErrRemote (redis_Failure ''down''))"
    and a2: "snd (snd (Cache_Set NewCache ?e ?down ''k'' [1] 0))
       = [Cmd_Set ''k'' [1] defaultExpiration]"
    and a3: "entries (fallback (fst (snd (Cache_Set NewCache ?e ?down ''k'' [1] 0)))) ''k''
       = Some \<lparr> data = [1], expiresAt = nowFallback ?e + defaultExpiration \<rparr>"
    by blast+
  from b allowed have b1: "fst (Cache_Set NewCache ?e None ''k'' [1] 5) = None"
    by blast
  from c denied have c1: "fst (Cache_Set ?open ?e2 ?down ''k'' [1] 0) = None"
    and c2: "snd (snd (Cache_Set ?open ?e2 ?down ''k'' [1] 0)) = []"
    by blast+
  show ?thesis
    using allowed denied a1 a2 a3 b1 c1 c2 by simp
qed

section \<open>The guild queues\<close>

lemma drain_buf:
  "drain n ch k = (k + min n (length (buf ch)), ch\<lparr> buf := drop n (buf ch) \<rparr>)"
proof (induction n arbitrary: ch k)
  case 0
  then show ?case by simp
next
  case (Suc n)
  show ?case
  proof (cases "buf ch")
    case Nil
    then show ?thesis by (simp add: chan_try_recv_def)
  next
    case (Cons x xs)
    then show ?thesis by (simp add: chan_try_recv_def Suc.IH)
  qed
qed

lemma monitor_tick_buf:
  "monitor_tick ctx
   = ((min 500 (length (buf (Events ctx))),
       length (buf (Events ctx)) - 500,
       cap (Events ctx)),
      ctx\<lparr> Events := (Events ctx)\<lparr> buf := drop 500 (buf (Events ctx)) \<rparr> \<rparr>)"
  by (simp add: monitor_tick_def drain_buf)

text \<open>
  Claim C5 says that a tick of the monitor leaves the event queue unchanged. The counting
  loop of \<open>monitor\<close> receives from the queue: a tick removes the first 500 buffered events,
  or all of them when there are fewer. Here a guild context is created by \<open>ensure\<close>, one
  event is enqueued and delivered, and the next tick of the monitor removes it.
\<close>

theorem monitor_tick_removes_events:
  "fst (enqueue (snd (ensure NewBot ''g'')) True ''g''
          \<lparr> Type = EventTypeInteraction, GuildUpdate = None, Interaction = Some 1,
            MsgDeletion = None, VoiceUpdate = None \<rparr>) = Delivered
   \<and> contexts (snd (enqueue (snd (ensure NewBot ''g'')) True ''g''
          \<lparr> Type = EventTypeInteraction, GuildUpdate = None, Interaction = Some 1,
            MsgDeletion = None, VoiceUpdate = None \<rparr>)) ''g''
       = Some \<lparr> Cancelled = False,
                Events = \<lparr> buf = [\<lparr> Type = EventTypeInteraction, GuildUpdate = None,
                                    Interaction = Some 1, MsgDeletion = None,
                                    VoiceUpdate = None \<rparr>],
                           cap = 1000, recvq = 0 \<rparr>,
                Relay = make_chan 500 \<rparr>
   \<and> monitor_tick
         \<lparr> Cancelled = False,
           Events = \<lparr> buf = [\<lparr> Type = EventTypeInteraction, GuildUpdate = None,
                               Interaction = Some 1, MsgDeletion = None,
                               VoiceUpdate = None \<rparr>],
                      cap = 1000, recvq = 0 \<rparr>,
           Relay = make_chan 500 \<rparr>
       = ((1, 0, 1000),
          \<lparr> Cancelled = False, Events = \<lparr> buf = [], cap = 1000, recvq = 0 \<rparr>,
            Relay = make_chan 500 \<rparr>)"
  by (simp add: monitor_tick_buf ensure_def NewBot_def enqueue_def make_chan_def
      chan_can_send_def chan_send_def context_Done_def Let_def)

text \<open>
  Claim C8 says that a context installed by \<open>ensure\<close> or by \<open>register\<close> has an event queue
  of capacity 1000 and a relay queue of capacity 500. \<open>ensure\<close> installs such a context;
  \<open>register\<close> installs one whose two channels are unbuffered (capacity 0), and a later
  \<open>ensure\<close> for that guild returns it as it is.
\<close>

theorem register_installs_unbuffered_queues:
  "contexts (fst (register NewBot ''g'' True)) ''g''
     = Some \<lparr> Cancelled = False,
              Events = \<lparr> buf = [], cap = 0, recvq = 0 \<rparr>,
              Relay = \<lparr> buf = [], cap = 0, recvq = 0 \<rparr> \<rparr>
   \<and> fst (ensure (fst (register NewBot ''g'' True)) ''g'')
     = \<lparr> Cancelled = False,
         Events = \<lparr> buf = [], cap = 0, recvq = 0 \<rparr>,
         Relay = \<lparr> buf = [], cap = 0, recvq = 0 \<rparr> \<rparr>
   \<and> contexts (snd (ensure NewBot ''g'')) ''g''
     = Some \<lparr> Cancelled = False,
              Events = \<lparr> buf = [], cap = 1000, recvq = 0 \<rparr>,
              Relay = \<lparr> buf = [], cap = 500, recvq = 0 \<rparr> \<rparr>"
  by (simp add: register_def ensure_def NewBot_def make_chan_def Let_def)

lemma enqueue_unknown:
  "contexts b g = None \<Longrightarrow> enqueue b pick g ev = (DroppedUnknown, b)"
  by (simp add: enqueue_def)

lemma enqueue_known:
  "contexts b g = Some ctx \<Longrightarrow>
   enqueue b pick g ev =
     (if chan_can_send (Events ctx) \<and> (if context_Done b ctx then pick else True)
      then (Delivered,
            b\<lparr> contexts := (contexts b)(g \<mapsto> ctx\<lparr> Events := chan_send (Events ctx) ev \<rparr>) \<rparr>)
      else if context_Done b ctx then (DroppedCancelled, b)
      else (DroppedFull, b))"
  by (simp add: enqueue_def Let_def)

lemma full_cannot_send:
  "length (buf ch) = cap ch \<Longrightarrow> recvq ch = 0 \<Longrightarrow> \<not> chan_can_send ch"
  by (simp add: chan_can_send_def)

lemma wf_full_no_receiver:
  "chan_wf ch \<Longrightarrow> 0 < cap ch \<Longrightarrow> length (buf ch) = cap ch \<Longrightarrow> recvq ch = 0"
  by (auto simp: chan_wf_def)

text \<open>
  Claim C6, as amended. \<open>enqueue\<close> always returns, and returns no error (it has no result
  in the source; the model's result is the branch taken and the bot afterwards). It ends
  in one of four ways: the guild is not in the registry and the event is dropped; or the
  event is delivered, which needs a send that can proceed; or it is dropped because the
  context is cancelled; or it is dropped because the send cannot proceed and the context
  is live. Only a delivery changes the bot. When the guild's queue is at capacity and no
  receiver is parked on it, which is so for every queue of capacity at least 1 that is at
  capacity, the event is not delivered, the bot is unchanged and the queue's length stays
  at capacity.
\<close>

theorem enqueue_outcomes:
  "(contexts b g = None \<longrightarrow> enqueue b pick g ev = (DroppedUnknown, b))
   \<and> (\<forall>ctx. contexts b g = Some ctx \<longrightarrow>
         (fst (enqueue b pick g ev) = Delivered
            \<and> chan_can_send (Events ctx)
            \<and> snd (enqueue b pick g ev)
                = b\<lparr> contexts := (contexts b)(g \<mapsto>
                       ctx\<lparr> Events := chan_send (Events ctx) ev \<rparr>) \<rparr>)
         \<or> (fst (enqueue b pick g ev) = DroppedCancelled
            \<and> context_Done b ctx
            \<and> snd (enqueue b pick g ev) = b)
         \<or> (fst (enqueue b pick g ev) = DroppedFull
            \<and> \<not> chan_can_send (Events ctx) \<and> \<not> context_Done b ctx
            \<and> snd (enqueue b pick g ev) = b))
   \<and> (\<forall>ctx. contexts b g = Some ctx
         \<and> length (buf (Events ctx)) = cap (Events ctx)
         \<and> (recvq (Events ctx) = 0 \<or> (chan_wf (Events ctx) \<and> 0 < cap (Events ctx))) \<longrightarrow>
         fst (enqueue b pick g ev) = (if context_Done b ctx then DroppedCancelled else DroppedFull)
         \<and> snd (enqueue b pick g ev) = b
         \<and> length (buf (Events (the (contexts (snd (enqueue b pick g ev)) g))))
             = cap (Events ctx))"
proof -
  have unknown: "enqueue b pick g ev = (DroppedUnknown, b)" if "contexts b g = None"
    using that by (rule enqueue_unknown)
  have three: "(fst (enqueue b pick g ev) = Delivered
            \<and> chan_can_send (Events ctx)
            \<and> snd (enqueue b pick g ev)
                = b\<lparr> contexts := (contexts b)(g \<mapsto>
                       ctx\<lparr> Events := chan_send (Events ctx) ev \<rparr>) \<rparr>)
         \<or> (fst (enqueue b pick g ev) = DroppedCancelled
            \<and> context_Done b ctx
            \<and> snd (enqueue b pick g ev) = b)
         \<or> (fst (enqueue b pick g ev) = DroppedFull
            \<and> \<not> chan_can_send (Events ctx) \<and> \<not> context_Done b ctx
            \<and> snd (enqueue b pick g ev) = b)"
    if "contexts b g = Some ctx" for ctx
    by (simp add: enqueue_known [OF that])
  have full: "fst (enqueue b pick g ev) = (if context_Done b ctx then DroppedCancelled else DroppedFull)
         \<and> snd (enqueue b pick g ev) = b
         \<and> length (buf (Events (the (contexts (snd (enqueue b pick g ev)) g))))
             = cap (Events ctx)"
    if known: "contexts b g = Some ctx"
      and at_cap: "length (buf (Events ctx)) = cap (Events ctx)"
      and idle: "recvq (Events ctx) = 0 \<or> (chan_wf (Events ctx) \<and> 0 < cap (Events ctx))"
    for ctx
  proof -
    from idle at_cap have "recvq (Events ctx) = 0"
      using wf_full_no_receiver by blast
    with at_cap have "\<not> chan_can_send (Events ctx)"
      by (rule full_cannot_send)
    then show ?thesis
      using known at_cap by (simp add: enqueue_known [OF known])
  qed
  show ?thesis
    using unknown three full by blast
qed

text \<open>
  The claim as stated fails in two ways. An event for a guild that is not in the registry
  ends in a fourth way, neither delivered nor dropped as cancelled or full. And an
  unbuffered queue is at capacity when it is empty; with a receiver parked on it the
  event is delivered.
\<close>

theorem enqueue_outcomes_counterexample:
  "fst (enqueue NewBot True ''g''
          \<lparr> Type = EventTypeInteraction, GuildUpdate = None, Interaction = Some 1,
            MsgDeletion = None, VoiceUpdate = None \<rparr>) = DroppedUnknown
   \<and> length (buf \<lparr> buf = [] :: GuildEvent list, cap = 0, recvq = 1 \<rparr>)
       = cap \<lparr> buf = [] :: GuildEvent list, cap = 0, recvq = 1 \<rparr>
   \<and> fst (enqueue
          \<lparr> botCancelled = False,
            contexts = [''g'' \<mapsto> \<lparr> Cancelled = False,
                                   Events = \<lparr> buf = [], cap = 0, recvq = 1 \<rparr>,
                                   Relay = make_chan 0 \<rparr>] \<rparr>
          True ''g''
          \<lparr> Type = EventTypeInteraction, GuildUpdate = None, Interaction = Some 1,
            MsgDeletion = None, VoiceUpdate = None \<rparr>) = Delivered"
  by (simp add: enqueue_def NewBot_def chan_can_send_def context_Done_def Let_def)

theorem enqueue_outcomes_witness:
  "contexts NewBot ''g'' = None
   \<and> enqueue NewBot False ''g''
        \<lparr> Type = EventTypeMsgDeletion, GuildUpdate = None, Interaction = None,
          MsgDeletion = Some 2, VoiceUpdate = None \<rparr> = (DroppedUnknown, NewBot)
   \<and> contexts
        \<lparr> botCancelled = False,
          contexts = [''g'' \<mapsto> \<lparr> Cancelled = False,
             Events = \<lparr> buf = [\<lparr> Type = EventTypeInteraction, GuildUpdate = None,
                                 Interaction = Some 1, MsgDeletion = None,
                                 VoiceUpdate = None \<rparr>], cap = 1, recvq = 0 \<rparr>,
             Relay = make_chan 500 \<rparr>] \<rparr> ''g''
       = Some \<lparr> Cancelled = False,
             Events = \<lparr> buf = [\<lparr> Type = EventTypeInteraction, GuildUpdate = None,
                                 Interaction = Some 1, MsgDeletion = None,
                                 VoiceUpdate = None \<rparr>], cap = 1, recvq = 0 \<rparr>,
             Relay = make_chan 500 \<rparr>
   \<and> fst (enqueue
        \<lparr> botCancelled = False,
          contexts = [''g'' \<mapsto> \<lparr> Cancelled = False,
             Events = \<lparr> buf = [\<lparr> Type = EventTypeInteraction, GuildUpdate = None,
                                 Interaction = Some 1, MsgDeletion = None,
                                 VoiceUpdate = None \<rparr>], cap = 1, recvq = 0 \<rparr>,
             Relay = make_chan 500 \<rparr>] \<rparr>
        True ''g''
        \<lparr> Type = EventTypeMsgDeletion, GuildUpdate = None, Interaction = None,
          MsgDeletion = Some 2, VoiceUpdate = None \<rparr>) = DroppedFull"
proof -
  define e1 where "e1 = \<lparr> Type = EventTypeInteraction, GuildUpdate = None,
                           Interaction = Some (1::nat), MsgDeletion = None,
                           VoiceUpdate = None \<rparr>"
  define e2 where "e2 = \<lparr> Type = EventTypeMsgDeletion, GuildUpdate = None,
                           Interaction = None, MsgDeletion = Some (2::nat),
                           VoiceUpdate = None \<rparr>"
  define ctx where "ctx = \<lparr> Cancelled = False,
             Events = \<lparr> buf = [e1], cap = 1, recvq = 0 \<rparr>, Relay = make_chan 500 \<rparr>"
  define b where "b = \<lparr> botCancelled = False, contexts = [''g'' \<mapsto> ctx] \<rparr>"
  have h1: "contexts NewBot ''g'' = None"
    by (simp add: NewBot_def)
  have h2: "contexts b ''g'' = Some ctx"
    by (simp add: b_def)
  have h3: "length (buf (Events ctx)) = cap (Events ctx)"
    and h4: "recvq (Events ctx) = 0"
    and h5: "\<not> context_Done b ctx"
    by (simp_all add: ctx_def b_def context_Done_def)
  from enqueue_outcomes [of NewBot "''g''" False e2] h1
  have a: "enqueue NewBot False ''g'' e2 = (DroppedUnknown, NewBot)"
    by blast
  from enqueue_outcomes [of b "''g''" True e2] h2 h3 h4
  have "fst (enqueue b True ''g'' e2)
        = (if context_Done b ctx then DroppedCancelled else DroppedFull)"
    by blast
  with h5 have c: "fst (enqueue b True ''g'' e2) = DroppedFull"
    by simp
  show ?thesis
    using h1 h2 a c unfolding b_def ctx_def e1_def e2_def by simp
qed

end
